theory Spec2Isabelle
  imports Complex_Main "HOL-Library.Word" "HOL-Library.Signed_Division"
begin

section \<open>MNIST.cpp: image normalisation, inference call and decision\<close>

text \<open>
  The development follows \<^verbatim>\<open>src/MNIST/Linux/MNIST.cpp\<close>. The conventions of the embedding:

  \<^item> \<^verbatim>\<open>int\<close> is the 32-bit two's complement integer of the Linux target. A value is an
    \<open>int\<close> of HOL, and every multiplication, addition and division of the source is
    checked against the range: a result outside it is undefined behaviour in C++ and is
    the fault \<open>SignedOverflow\<close> here.
  \<^item> \<^verbatim>\<open>operator[]\<close> of \<^verbatim>\<open>std::vector\<close> and \<^verbatim>\<open>std::array\<close> does not check its index; an
    index outside the container is undefined behaviour and is the fault \<open>OutOfBounds\<close>.
  \<^item> \<^verbatim>\<open>float\<close> is a finite binary32 number, read as the real number it denotes. Each
    floating-point operation of the source is the exact operation followed by a rounding
    \<open>rnd\<close>, and \<^verbatim>\<open>std::exp\<close> on floats is a function \<open>fexp\<close>. Both are parameters of the
    model: the theorems say which properties of the arithmetic they rest on. Exact real
    arithmetic is the instance \<open>rnd = (\<lambda>x. x)\<close>, \<open>fexp = exp\<close>; binary32 arithmetic is the
    instance \<open>rnd = binary32\<close>, \<open>fexp = expf\<close> defined below. NaN and the infinities are not
    values of the model.
  \<^item> An \<^verbatim>\<open>Ort::Exception\<close> is a value \<open>OrtException msg\<close>; the ONNX Runtime calls
    (creating a session, running it) are parameters of the model, since the engine is
    not part of the repository.
  \<^item> The members \<^verbatim>\<open>session_\<close>, \<^verbatim>\<open>input_image_\<close>, \<^verbatim>\<open>results_\<close>, \<^verbatim>\<open>input_shape_\<close> and
    \<^verbatim>\<open>output_shape_\<close> are the fields of the record \<open>MNISTModel\<close>, named without the
    trailing underscore; a member function takes the object and returns the updated one.
\<close>

subsection \<open>Checked integer arithmetic and unchecked indexing\<close>

datatype fault = SignedOverflow | DivisionByZero | OutOfBounds

definition INT_MAX :: int where
  "INT_MAX = 2147483647"

definition INT_MIN :: int where
  "INT_MIN = - 2147483648"

definition in_int :: "int \<Rightarrow> fault + int" where
  "in_int x = (if INT_MIN \<le> x \<and> x \<le> INT_MAX then Inr x else Inl SignedOverflow)"

definition imul :: "int \<Rightarrow> int \<Rightarrow> fault + int" where
  "imul a b = in_int (a * b)"

definition iadd :: "int \<Rightarrow> int \<Rightarrow> fault + int" where
  "iadd a b = in_int (a + b)"

definition idiv :: "int \<Rightarrow> int \<Rightarrow> fault + int" where
  "idiv a b = (if b = 0 then Inl DivisionByZero else in_int (a sdiv b))"

definition bindE :: "'e + 'a \<Rightarrow> ('a \<Rightarrow> 'e + 'b) \<Rightarrow> 'e + 'b" where
  "bindE m f = (case m of Inl e \<Rightarrow> Inl e | Inr x \<Rightarrow> f x)"

definition at_index :: "'a list \<Rightarrow> int \<Rightarrow> fault + 'a" where
  "at_index xs i = (if 0 \<le> i \<and> i < int (length xs) then Inr (xs ! nat i) else Inl OutOfBounds)"

definition set_index :: "'a list \<Rightarrow> int \<Rightarrow> 'a \<Rightarrow> fault + 'a list" where
  "set_index xs i v = (if 0 \<le> i \<and> i < int (length xs) then Inr (xs[nat i := v]) else Inl OutOfBounds)"

text \<open>A counted loop \<^verbatim>\<open>for (int i = 0; i < n; ++i)\<close>: its counter values, and the loop
  itself, which stops at the first fault.\<close>

definition counter_values :: "int \<Rightarrow> int list" where
  "counter_values n = map int [0..<nat n]"

fun forE :: "('i \<Rightarrow> 's \<Rightarrow> fault + 's) \<Rightarrow> 'i list \<Rightarrow> 's \<Rightarrow> fault + 's" where
  "forE body [] s = Inr s"
| "forE body (i # is) s = (case body i s of Inl e \<Rightarrow> Inl e | Inr s' \<Rightarrow> forE body is s')"

subsection \<open>Floating-point operations\<close>

definition fadd :: "(real \<Rightarrow> real) \<Rightarrow> real \<Rightarrow> real \<Rightarrow> real" where
  "fadd rnd a b = rnd (a + b)"

definition fsub :: "(real \<Rightarrow> real) \<Rightarrow> real \<Rightarrow> real \<Rightarrow> real" where
  "fsub rnd a b = rnd (a - b)"

definition fdiv :: "(real \<Rightarrow> real) \<Rightarrow> real \<Rightarrow> real \<Rightarrow> real" where
  "fdiv rnd a b = rnd (a / b)"

definition float_of_int :: "(real \<Rightarrow> real) \<Rightarrow> int \<Rightarrow> real" where
  "float_of_int rnd n = rnd (of_int n)"

subsection \<open>The model object\<close>

definition MNIST_WIDTH :: int where
  "MNIST_WIDTH = 28"

definition MNIST_HEIGHT :: int where
  "MNIST_HEIGHT = 28"

text \<open>What the engine knows of a loaded model: the shapes the model file declares for
  its input and its output.\<close>

record OrtSession =
  declared_input_shape :: "int list"
  declared_output_shape :: "int list"

record MNISTModel =
  session :: OrtSession
  input_image :: "real list"
  results :: "real list"
  input_shape :: "int list"
  output_shape :: "int list"

datatype failure = UndefinedBehaviour fault | OrtException string

subsection \<open>convertImage\<close>

text \<open>The source pixel of a target cell: \<^verbatim>\<open>srcY\<close>, \<^verbatim>\<open>srcX\<close> and the byte index \<^verbatim>\<open>idx\<close>
  (lines 90 to 93).\<close>

definition source_index :: "int \<Rightarrow> int \<Rightarrow> int \<Rightarrow> int \<Rightarrow> fault + int" where
  "source_index bigWidth bigHeight row col =
     bindE (imul row bigHeight) (\<lambda>rh.
     bindE (idiv rh MNIST_HEIGHT) (\<lambda>srcY.
     bindE (imul col bigWidth) (\<lambda>cw.
     bindE (idiv cw MNIST_WIDTH) (\<lambda>srcX.
     bindE (imul srcY bigWidth) (\<lambda>yw.
     bindE (iadd yw srcX) (\<lambda>p.
     imul p 4))))))"

text \<open>The value stored for one pixel (lines 101 to 104): the three channels are promoted
  to \<^verbatim>\<open>int\<close> and added (at most 765, no overflow), the sum is converted to float and
  divided by \<^verbatim>\<open>3.0f\<close>, and the result is inverted and scaled.\<close>

definition gray_value :: "(real \<Rightarrow> real) \<Rightarrow> 8 word \<Rightarrow> 8 word \<Rightarrow> 8 word \<Rightarrow> real" where
  "gray_value rnd r g b =
     (let val = fdiv rnd (float_of_int rnd (uint r + uint g + uint b)) 3
      in fdiv rnd (fsub rnd 255 val) 255)"

text \<open>The body of the inner loop (lines 90 to 104).\<close>

definition convert_cell ::
  "(real \<Rightarrow> real) \<Rightarrow> 8 word list \<Rightarrow> int \<Rightarrow> int \<Rightarrow> int \<Rightarrow> int \<Rightarrow> real list \<Rightarrow> fault + real list" where
  "convert_cell rnd sdl_pixels bigWidth bigHeight row col img =
     bindE (source_index bigWidth bigHeight row col) (\<lambda>idx.
     bindE (iadd idx 0) (\<lambda>i0. bindE (at_index sdl_pixels i0) (\<lambda>r.
     bindE (iadd idx 1) (\<lambda>i1. bindE (at_index sdl_pixels i1) (\<lambda>g.
     bindE (iadd idx 2) (\<lambda>i2. bindE (at_index sdl_pixels i2) (\<lambda>b.
     bindE (imul row MNIST_WIDTH) (\<lambda>rw.
     bindE (iadd rw col) (\<lambda>k.
     set_index img k (gray_value rnd r g b))))))))))"

definition convert_row ::
  "(real \<Rightarrow> real) \<Rightarrow> 8 word list \<Rightarrow> int \<Rightarrow> int \<Rightarrow> int \<Rightarrow> real list \<Rightarrow> fault + real list" where
  "convert_row rnd sdl_pixels bigWidth bigHeight row img =
     forE (convert_cell rnd sdl_pixels bigWidth bigHeight row) (counter_values MNIST_WIDTH) img"

text \<open>\<^verbatim>\<open>std::fill\<close> over the whole array, then the two nested loops.\<close>

definition convertImage ::
  "(real \<Rightarrow> real) \<Rightarrow> 8 word list \<Rightarrow> int \<Rightarrow> int \<Rightarrow> MNISTModel \<Rightarrow> fault + MNISTModel" where
  "convertImage rnd sdl_pixels bigWidth bigHeight m =
     bindE (forE (convert_row rnd sdl_pixels bigWidth bigHeight) (counter_values MNIST_HEIGHT)
              (map (\<lambda>_. 0) (input_image m)))
       (\<lambda>img. Inr (m\<lparr>input_image := img\<rparr>))"

subsection \<open>softmax\<close>

text \<open>\<^verbatim>\<open>std::max_element\<close>: the position of the first greatest element, found by one
  left-to-right scan with \<^verbatim>\<open><\<close>; the end of the range (position 0) when the range is
  empty.\<close>

definition max_element :: "real list \<Rightarrow> nat" where
  "max_element xs =
     fold (\<lambda>i largest. if xs ! largest < xs ! i then i else largest) [1..<length xs] 0"

text \<open>Lines 22 to 35. Dereferencing the result of \<^verbatim>\<open>max_element\<close> on an empty container
  is undefined; the two loops run over \<^verbatim>\<open>0 .. input.size() - 1\<close>, so their accesses are
  in range. The second loop overwrites \<^verbatim>\<open>input\<close> in place.\<close>

definition softmax :: "(real \<Rightarrow> real) \<Rightarrow> (real \<Rightarrow> real) \<Rightarrow> real list \<Rightarrow> fault + real list" where
  "softmax rnd fexp input =
     (if input = [] then Inl OutOfBounds
      else
        let rowmax = input ! max_element input;
            (y, sum) =
              fold (\<lambda>i (y, sum).
                     let val = fexp (fsub rnd (input ! i) rowmax)
                     in (y[i := val], fadd rnd sum val))
                [0..<length input] (replicate (length input) 0, 0)
        in Inr (fold (\<lambda>i inp. inp[i := fdiv rnd (y ! i) sum]) [0..<length input] input))"

subsection \<open>The constructor and Run\<close>

text \<open>Lines 42 to 59. \<^verbatim>\<open>Ort::Session(env_, model_path, session_options)\<close> is the engine's
  \<open>create_session\<close>: it throws an \<^verbatim>\<open>Ort::Exception\<close> with a message, or yields a
  session. The two \<^verbatim>\<open>CreateTensor\<close> calls wrap the object's own arrays with the object's
  own fixed shapes; the constructor never reads the shapes the model declares.\<close>

definition MNISTModel_ctor :: "(string \<Rightarrow> string + OrtSession) \<Rightarrow> string \<Rightarrow> failure + MNISTModel" where
  "MNISTModel_ctor create_session model_path =
     (case create_session model_path of
        Inl msg \<Rightarrow> Inl (OrtException msg)
      | Inr s \<Rightarrow>
          Inr \<lparr>session = s,
               input_image = replicate (nat (MNIST_WIDTH * MNIST_HEIGHT)) 0,
               results = replicate 10 0,
               input_shape = [1, 1, MNIST_HEIGHT, MNIST_WIDTH],
               output_shape = [1, 10]\<rparr>)"

text \<open>Lines 62 to 77. \<^verbatim>\<open>session_.Run\<close> is the engine's \<open>session_Run\<close>: given the session
  and the contents of the bound input tensor it throws, or fills the bound output tensor
  \<^verbatim>\<open>results_\<close>. \<^verbatim>\<open>Run\<close> has no handler, so an exception leaves it.\<close>

definition Run ::
  "(real \<Rightarrow> real) \<Rightarrow> (real \<Rightarrow> real) \<Rightarrow> (OrtSession \<Rightarrow> real list \<Rightarrow> string + real list) \<Rightarrow>
     MNISTModel \<Rightarrow> failure + (int \<times> MNISTModel)" where
  "Run rnd fexp session_Run m =
     (case session_Run (session m) (input_image m) of
        Inl msg \<Rightarrow> Inl (OrtException msg)
      | Inr logits \<Rightarrow>
          (case softmax rnd fexp logits of
             Inl f \<Rightarrow> Inl (UndefinedBehaviour f)
           | Inr probabilities \<Rightarrow>
               Inr (int (max_element probabilities), m\<lparr>results := probabilities\<rparr>)))"

subsection \<open>main: loading the model, and the release of the left button\<close>

datatype startup = Returned int string | Loaded MNISTModel | LoadAborted failure

text \<open>Lines 132 to 140: the constructor runs inside \<^verbatim>\<open>try\<close>; the handler for
  \<^verbatim>\<open>Ort::Exception\<close> writes the message to \<^verbatim>\<open>std::cerr\<close> and returns -1.\<close>

definition main_load :: "(string \<Rightarrow> string + OrtSession) \<Rightarrow> startup" where
  "main_load create_session =
     (case MNISTModel_ctor create_session ''mnist.onnx'' of
        Inl (OrtException msg) \<Rightarrow> Returned (- 1) (''ONNX Runtime error: '' @ msg)
      | Inl (UndefinedBehaviour f) \<Rightarrow> LoadAborted (UndefinedBehaviour f)
      | Inr m \<Rightarrow> Loaded m)"

definition width :: int where
  "width = MNIST_WIDTH * 10"

definition height :: int where
  "height = MNIST_HEIGHT * 8"

datatype event_outcome = Printed int "real list" MNISTModel | Terminated failure

text \<open>Lines 221 to 241, \<^verbatim>\<open>SDL_MOUSEBUTTONUP\<close> of the left button: the pixels read back from
  the texture are converted, \<^verbatim>\<open>Run\<close> is called, and the prediction and the ten
  probabilities are printed. No \<^verbatim>\<open>try\<close> block encloses these calls (the only one of
  \<^verbatim>\<open>main\<close> ends at line 140), so an exception thrown by \<^verbatim>\<open>Run\<close> leaves \<^verbatim>\<open>main\<close> and
  the process is terminated.\<close>

definition on_left_button_up ::
  "(real \<Rightarrow> real) \<Rightarrow> (real \<Rightarrow> real) \<Rightarrow> (OrtSession \<Rightarrow> real list \<Rightarrow> string + real list) \<Rightarrow>
     8 word list \<Rightarrow> MNISTModel \<Rightarrow> event_outcome" where
  "on_left_button_up rnd fexp session_Run pixels mnistModel =
     (case convertImage rnd pixels width height mnistModel of
        Inl f \<Rightarrow> Terminated (UndefinedBehaviour f)
      | Inr m1 \<Rightarrow>
          (case Run rnd fexp session_Run m1 of
             Inl e \<Rightarrow> Terminated e
           | Inr (predicted, m2) \<Rightarrow> Printed predicted (results m2) m2))"

section \<open>Definitions used to state the properties\<close>

subsection \<open>The specification of convertImage\<close>

text \<open>The conditions under which the \<^verbatim>\<open>int\<close> arithmetic of \<^verbatim>\<open>convertImage\<close> stays in
  range: the largest products \<^verbatim>\<open>row * bigHeight\<close> and \<^verbatim>\<open>col * bigWidth\<close>, and the largest
  byte index plus 2.\<close>

definition index_fits :: "int \<Rightarrow> int \<Rightarrow> bool" where
  "index_fits bigWidth bigHeight \<longleftrightarrow>
     27 * bigHeight \<le> INT_MAX \<and> 27 * bigWidth \<le> INT_MAX \<and>
     ((27 * bigHeight) div 28 * bigWidth + (27 * bigWidth) div 28) * 4 + 2 \<le> INT_MAX"

text \<open>The nearest-neighbour source pixel of the specification: the byte offset of the
  pixel at \<open>srcY = r * H div 28\<close>, \<open>srcX = c * W div 28\<close> in the row-major RGBA buffer.\<close>

definition source_offset :: "int \<Rightarrow> int \<Rightarrow> int \<Rightarrow> int \<Rightarrow> int" where
  "source_offset bigWidth bigHeight r c =
     (r * bigHeight div 28 * bigWidth + c * bigWidth div 28) * 4"

text \<open>The luminance \<open>L\<close> of the specification, the average of the three colour channels
  of the source pixel, and the value \<open>(255 - L) / 255\<close> of a cell, both in the machine's
  arithmetic; and the image that holds the value of every cell.\<close>

definition luminance :: "(real \<Rightarrow> real) \<Rightarrow> 8 word list \<Rightarrow> int \<Rightarrow> int \<Rightarrow> int \<Rightarrow> int \<Rightarrow> real" where
  "luminance rnd px bigWidth bigHeight r c =
     (let i = nat (source_offset bigWidth bigHeight r c)
      in fdiv rnd (float_of_int rnd (uint (px ! i) + uint (px ! (i + 1)) + uint (px ! (i + 2)))) 3)"

definition cell_value :: "(real \<Rightarrow> real) \<Rightarrow> 8 word list \<Rightarrow> int \<Rightarrow> int \<Rightarrow> int \<Rightarrow> int \<Rightarrow> real" where
  "cell_value rnd px bigWidth bigHeight r c =
     fdiv rnd (fsub rnd 255 (luminance rnd px bigWidth bigHeight r c)) 255"

definition converted_image ::
  "(real \<Rightarrow> real) \<Rightarrow> 8 word list \<Rightarrow> int \<Rightarrow> int \<Rightarrow> real list \<Rightarrow> real list" where
  "converted_image rnd px bigWidth bigHeight img =
     fold (\<lambda>(r, c) ys. ys[nat (r * 28 + c) := cell_value rnd px bigWidth bigHeight r c])
       (List.product (counter_values 28) (counter_values 28)) img"

subsection \<open>The specification of softmax\<close>

text \<open>\<open>float_sum\<close> is a sum accumulated from \<^verbatim>\<open>0.0f\<close> from left to right;
  \<open>softmax_formula\<close> is the max-subtraction formula in the machine's arithmetic,
  \<open>softmax_reference\<close> the same in exact real arithmetic.\<close>

definition float_sum :: "(real \<Rightarrow> real) \<Rightarrow> real list \<Rightarrow> real" where
  "float_sum rnd xs = foldl (fadd rnd) 0 xs"

definition softmax_formula :: "(real \<Rightarrow> real) \<Rightarrow> (real \<Rightarrow> real) \<Rightarrow> real list \<Rightarrow> real list" where
  "softmax_formula rnd fexp logits =
     (let m = Max (set logits);
          s = float_sum rnd (map (\<lambda>l. fexp (fsub rnd l m)) logits)
      in map (\<lambda>l. fdiv rnd (fexp (fsub rnd l m)) s) logits)"

definition softmax_reference :: "real list \<Rightarrow> real list" where
  "softmax_reference logits =
     map (\<lambda>l. exp (l - Max (set logits)) / (\<Sum>j\<leftarrow>logits. exp (j - Max (set logits)))) logits"

subsection \<open>Properties of the arithmetic\<close>

text \<open>The properties of the rounding and of the exponential that the theorems on value
  ranges and on the decision rest on. Every rounding of IEEE 754 is monotone; binary32
  represents every integer up to \<open>2 ^ 24\<close> in magnitude exactly; and in the standard model
  of rounding errors the relative error is at most \<open>2 ^ -24\<close>, or the absolute error at
  most \<open>2 ^ -150\<close> in the subnormal range.\<close>

definition monotone_rounding :: "(real \<Rightarrow> real) \<Rightarrow> bool" where
  "monotone_rounding rnd \<longleftrightarrow> (\<forall>x y. x \<le> y \<longrightarrow> rnd x \<le> rnd y)"

definition exact_on_integers :: "(real \<Rightarrow> real) \<Rightarrow> bool" where
  "exact_on_integers rnd \<longleftrightarrow> (\<forall>n::int. \<bar>n\<bar> \<le> 16777216 \<longrightarrow> rnd (of_int n) = of_int n)"

definition unit_roundoff :: real where
  "unit_roundoff = 1 / 2 ^ 24"

definition underflow_unit :: real where
  "underflow_unit = 1 / 2 ^ 150"

definition rounding_error_bounded :: "(real \<Rightarrow> real) \<Rightarrow> bool" where
  "rounding_error_bounded rnd \<longleftrightarrow>
     (\<forall>x. \<bar>rnd x - x\<bar> \<le> \<bar>x\<bar> * unit_roundoff + underflow_unit)"

definition plausible_exp :: "(real \<Rightarrow> real) \<Rightarrow> bool" where
  "plausible_exp fexp \<longleftrightarrow>
     (\<forall>x y. x \<le> y \<longrightarrow> fexp x \<le> fexp y) \<and> (\<forall>t. 0 \<le> fexp t) \<and> fexp 0 = 1"

subsection \<open>binary32\<close>

text \<open>The binary32 format, for the finite range: rounding to nearest, ties to even, onto
  the numbers \<open>n * 2 ^ e\<close> with 24 significant bits and least exponent -149 (gradual
  underflow). Overflow to an infinity is not modelled: the exponent is unbounded above.
  \<open>expf\<close> is the correctly rounded exponential. Section \<open>Properties of binary32
  rounding\<close> proves that this arithmetic has the properties above.\<close>

definition round_half_even :: "real \<Rightarrow> int" where
  "round_half_even x =
     (let f = \<lfloor>x\<rfloor>
      in if x - of_int f < 1 / 2 then f
         else if 1 / 2 < x - of_int f then f + 1
         else if even f then f else f + 1)"

definition binary32_exponent :: "real \<Rightarrow> int" where
  "binary32_exponent x = max (\<lfloor>log 2 \<bar>x\<bar>\<rfloor> - 23) (- 149)"

definition binary32 :: "real \<Rightarrow> real" where
  "binary32 x =
     (if x = 0 then 0
      else of_int (round_half_even (x / 2 powr of_int (binary32_exponent x)))
             * 2 powr of_int (binary32_exponent x))"

definition expf :: "real \<Rightarrow> real" where
  "expf t = binary32 (exp t)"

subsection \<open>Inputs used to instantiate the theorems\<close>

text \<open>An object as the constructor leaves it; a capture of 2 by 2 pixels (white, black
  and two colours); the canvas of \<^verbatim>\<open>main\<close> when nothing is drawn (280 x 224 white
  pixels); a session for a model of another shape; and ten logits of which the second is
  greater than the others by \<open>2 ^ -30\<close>.\<close>

definition loaded_model :: MNISTModel where
  "loaded_model =
     \<lparr>session = \<lparr>declared_input_shape = [1, 1, 28, 28], declared_output_shape = [1, 10]\<rparr>,
      input_image = replicate 784 0,
      results = replicate 10 0,
      input_shape = [1, 1, 28, 28],
      output_shape = [1, 10]\<rparr>"

definition four_pixels :: "8 word list" where
  "four_pixels = [255, 255, 255, 255,  0, 0, 0, 255,  30, 60, 90, 255,  10, 20, 30, 255]"

definition white_canvas :: "8 word list" where
  "white_canvas = replicate 250880 255"

definition other_model :: OrtSession where
  "other_model = \<lparr>declared_input_shape = [1, 3, 32, 32], declared_output_shape = [1, 1000]\<rparr>"

definition tiny :: real where
  "tiny = 1 / 2 ^ 30"

definition tiny_logits :: "real list" where
  "tiny_logits = [0, tiny, 0, 0, 0, 0, 0, 0, 0, 0]"

text \<open>Ten logits of which the second is greater than the others by 1.\<close>

definition shift_logits :: "real list" where
  "shift_logits = [0, 1, 0, 0, 0, 0, 0, 0, 0, 0]"

section \<open>convertImage: index arithmetic and the two loops\<close>

lemma in_int_Inr: "INT_MIN \<le> x \<Longrightarrow> x \<le> INT_MAX \<Longrightarrow> in_int x = Inr x"
  by (simp add: in_int_def)

lemma sdiv_nonneg: "0 \<le> a \<Longrightarrow> 0 < b \<Longrightarrow> (a::int) sdiv b = a div b"
  by (simp add: signed_divide_int_def sgn_if)

lemma bindE_Inr [simp]: "bindE (Inr x) f = f x"
  by (simp add: bindE_def)

lemma bindE_Inl [simp]: "bindE (Inl e) f = Inl e"
  by (simp add: bindE_def)

lemma src_coord_bounds:
  fixes r n :: int
  assumes "0 \<le> r" "r \<le> 27" "1 \<le> n"
  shows "0 \<le> r * n div 28" "r * n div 28 \<le> 27 * n div 28" "r * n div 28 < n" "r * n \<le> 27 * n" "0 \<le> r * n"
proof -
  show a: "0 \<le> r * n" using assms by simp
  show b: "r * n \<le> 27 * n" using assms by (simp add: mult_right_mono)
  show "0 \<le> r * n div 28" using a by (simp add: pos_imp_zdiv_nonneg_iff)
  show "r * n div 28 \<le> 27 * n div 28" using b by (rule zdiv_mono1) simp
  have "r * n < n * 28" using b assms by linarith
  then show "r * n div 28 < n" by (simp add: div_less_iff_less_mult)
qed

lemma source_index_ok:
  assumes W: "1 \<le> W" and H: "1 \<le> H" and fits: "index_fits W H"
    and r: "0 \<le> r" "r \<le> 27" and c: "0 \<le> c" "c \<le> 27"
  shows "source_index W H r c = Inr ((r * H div 28 * W + c * W div 28) * 4)"
    and "0 \<le> (r * H div 28 * W + c * W div 28) * 4"
    and "(r * H div 28 * W + c * W div 28) * 4 + 2 \<le> INT_MAX"
    and "(r * H div 28 * W + c * W div 28) * 4 + 2 < W * H * 4"
proof -
  define y x where "y = r * H div 28" and "x = c * W div 28"
  define ymax xmax where "ymax = 27 * H div 28" and "xmax = 27 * W div 28"
  have y: "0 \<le> y" "y \<le> ymax" "y < H" "r * H \<le> 27 * H" "0 \<le> r * H"
    unfolding y_def ymax_def using src_coord_bounds [OF r H] by blast+
  have x: "0 \<le> x" "x \<le> xmax" "x < W" "c * W \<le> 27 * W" "0 \<le> c * W"
    unfolding x_def xmax_def using src_coord_bounds [OF c W] by blast+
  have fH: "27 * H \<le> INT_MAX" and fW: "27 * W \<le> INT_MAX"
    and fI: "(ymax * W + xmax) * 4 + 2 \<le> INT_MAX"
    using fits by (simp_all add: index_fits_def ymax_def xmax_def)
  have yw: "y * W \<le> ymax * W" using y W by (simp add: mult_right_mono)
  have yw0: "0 \<le> y * W" using y W by simp
  have top: "(y * W + x) * 4 + 2 \<le> INT_MAX"
  proof -
    have "(y * W + x) * 4 + 2 \<le> (ymax * W + xmax) * 4 + 2"
      by (intro add_mono mult_right_mono yw x(2)) simp_all
    then show ?thesis using fI by (rule order_trans)
  qed
  have ywH: "y * W \<le> (H - 1) * W" using y(3) W by (simp add: mult_right_mono)
  have lt: "(y * W + x) * 4 + 2 < W * H * 4" using ywH x(3) by (simp add: algebra_simps)
  have m: "INT_MIN \<le> 0" "0 \<le> INT_MAX" by (simp_all add: INT_MIN_def INT_MAX_def)
  have 1: "imul r H = Inr (r * H)" unfolding imul_def using y fH m by (intro in_int_Inr) linarith+
  have 2: "idiv (r * H) MNIST_HEIGHT = Inr y"
    unfolding idiv_def MNIST_HEIGHT_def y_def [symmetric] 
    using y fH m by (simp add: sdiv_nonneg in_int_Inr y_def [symmetric])
  have 3: "imul c W = Inr (c * W)" unfolding imul_def using x fW m by (intro in_int_Inr) linarith+
  have 4: "idiv (c * W) MNIST_WIDTH = Inr x"
    unfolding idiv_def MNIST_WIDTH_def using x fW m by (simp add: sdiv_nonneg in_int_Inr x_def [symmetric])
  define p where "p = y * W"
  have p: "0 \<le> p" "4 * p + 4 * x + 2 \<le> INT_MAX" using yw0 top by (simp_all add: p_def algebra_simps)
  have 5: "imul y W = Inr (y * W)" unfolding imul_def p_def [symmetric] using p x m by (intro in_int_Inr) (simp_all add: algebra_simps)
  have 6: "iadd (y * W) x = Inr (y * W + x)" unfolding iadd_def p_def [symmetric] using p x m by (intro in_int_Inr) (simp_all add: algebra_simps)
  have 7: "imul (y * W + x) 4 = Inr ((y * W + x) * 4)" unfolding imul_def p_def [symmetric] using p x m by (intro in_int_Inr) (simp_all add: algebra_simps)
  show "source_index W H r c = Inr ((r * H div 28 * W + c * W div 28) * 4)"
    unfolding y_def [symmetric] x_def [symmetric]
    by (simp add: source_index_def 1 2 3 4 5 6 7)
  show "0 \<le> (r * H div 28 * W + c * W div 28) * 4"
    unfolding y_def [symmetric] x_def [symmetric] using yw0 x by simp
  show "(r * H div 28 * W + c * W div 28) * 4 + 2 \<le> INT_MAX"
    unfolding y_def [symmetric] x_def [symmetric] by (rule top)
  show "(r * H div 28 * W + c * W div 28) * 4 + 2 < W * H * 4"
    unfolding y_def [symmetric] x_def [symmetric] by (rule lt)
qed

lemma forE_fold:
  assumes "\<And>i s. i \<in> set xs \<Longrightarrow> P s \<Longrightarrow> body i s = Inr (h i s) \<and> P (h i s)" and "P s"
  shows "forE body xs s = Inr (fold h xs s) \<and> P (fold h xs s)"
  using assms by (induction xs arbitrary: s) auto

lemma set_counter_values: "set (counter_values n) = {0..<n}"
proof -
  have "int ` {0..<nat n} = {0..<n}"
  proof (rule set_eqI)
    fix x show "x \<in> int ` {0..<nat n} \<longleftrightarrow> x \<in> {0..<n}"
    proof
      assume "x \<in> int ` {0..<nat n}" then show "x \<in> {0..<n}" by auto
    next
      assume "x \<in> {0..<n}"
      then have "x = int (nat x)" "nat x \<in> {0..<nat n}" by auto
      then show "x \<in> int ` {0..<nat n}" by (rule image_eqI)
    qed
  qed
  then show ?thesis by (simp add: counter_values_def)
qed

lemma distinct_counter_values: "distinct (counter_values n)"
  by (simp add: counter_values_def distinct_map inj_on_def)

lemma convert_cell_ok:
  assumes W: "1 \<le> W" and H: "1 \<le> H" and fits: "index_fits W H"
    and len: "length px = nat (W * H * 4)"
    and r: "0 \<le> r" "r \<le> 27" and c: "0 \<le> c" "c \<le> 27"
    and img: "length img = 784"
  shows "convert_cell rnd px W H r c img = Inr (img[nat (r * 28 + c) := cell_value rnd px W H r c])"
proof -
  define idx where "idx = source_offset W H r c"
  note si = source_index_ok [OF W H fits r c, folded source_offset_def, folded idx_def]
  have m: "INT_MIN \<le> 0" "0 \<le> INT_MAX" "783 \<le> INT_MAX"
    by (simp_all add: INT_MIN_def INT_MAX_def)
  have WH: "0 \<le> W * H * 4" using W H by simp
  have a0: "iadd idx 0 = Inr idx" "iadd idx 1 = Inr (idx + 1)" "iadd idx 2 = Inr (idx + 2)"
    unfolding iadd_def using si(2,3) m by (simp_all add: in_int_Inr)
  have b: "at_index px idx = Inr (px ! nat idx)"
    "at_index px (idx + 1) = Inr (px ! (nat idx + 1))"
    "at_index px (idx + 2) = Inr (px ! (nat idx + 2))"
    using si(2,4) len WH by (simp_all add: at_index_def nat_add_distrib)
  have k: "imul r MNIST_WIDTH = Inr (r * 28)" "iadd (r * 28) c = Inr (r * 28 + c)"
    unfolding imul_def iadd_def MNIST_WIDTH_def using r c m by (simp_all add: in_int_Inr)
  have s: "set_index img (r * 28 + c) v = Inr (img[nat (r * 28 + c) := v])" for v
    using r c img by (simp add: set_index_def)
  show ?thesis
    by (simp add: convert_cell_def si(1) a0 b k s cell_value_def luminance_def gray_value_def
        idx_def [symmetric] Let_def)
qed

lemma fold_update_other:
  "j \<notin> f ` set xs \<Longrightarrow> fold (\<lambda>i ys. ys[f i := g i]) xs ys ! j = ys ! j"
  by (induction xs arbitrary: ys) auto

lemma length_fold_update [simp]:
  "length (fold (\<lambda>i ys. ys[f i := g i]) xs ys) = length ys"
  by (induction xs arbitrary: ys) auto

lemma fold_update_hit:
  "i \<in> set xs \<Longrightarrow> distinct xs \<Longrightarrow> inj_on f (set xs) \<Longrightarrow> f i < length ys \<Longrightarrow>
     fold (\<lambda>i ys. ys[f i := g i]) xs ys ! f i = g i"
proof (induction xs arbitrary: ys)
  case Nil
  then show ?case by simp
next
  case (Cons a xs)
  show ?case
  proof (cases "i = a")
    case True
    have "f a \<notin> f ` set xs" using Cons.prems(2,3) by auto
    then show ?thesis using True Cons.prems(4) by (simp add: fold_update_other)
  next
    case False
    then have "i \<in> set xs" using Cons.prems(1) by simp
    moreover have "distinct xs" "inj_on f (set xs)" using Cons.prems(2,3) by auto
    ultimately show ?thesis using Cons.IH [of "ys[f a := g a]"] Cons.prems(4) by simp
  qed
qed

lemma fold_nested_product:
  "fold (\<lambda>r. fold (g r) cs) rs s = fold (\<lambda>(r, c). g r c) (List.product rs cs) s"
  by (induction rs arbitrary: s) (simp_all add: fold_map comp_def)

lemma convertImage_ok:
  assumes W: "1 \<le> W" and H: "1 \<le> H" and fits: "index_fits W H"
    and len: "length px = nat (W * H * 4)"
    and img: "length (input_image m) = 784"
  shows "convertImage rnd px W H m =
     Inr (m\<lparr>input_image := converted_image rnd px W H (map (\<lambda>_. 0) (input_image m))\<rparr>)"
proof -
  let ?P = "\<lambda>ys::real list. length ys = 784"
  let ?cell = "\<lambda>r c (ys::real list). ys[nat (r * 28 + c) := cell_value rnd px W H r c]"
  have row: "convert_row rnd px W H r ys = Inr (fold (?cell r) (counter_values 28) ys)
      \<and> ?P (fold (?cell r) (counter_values 28) ys)"
    if "r \<in> set (counter_values 28)" "?P ys" for r ys
    unfolding convert_row_def MNIST_WIDTH_def
  proof (rule forE_fold [where P = ?P])
    fix c s assume "c \<in> set (counter_values 28)" "length (s::real list) = 784"
    then show "convert_cell rnd px W H r c s = Inr (?cell r c s) \<and> length (?cell r c s) = 784"
      using that convert_cell_ok [OF W H fits len, of r c s rnd]
      by (simp add: set_counter_values)
  qed (rule that)
  have "forE (convert_row rnd px W H) (counter_values 28) (map (\<lambda>_. 0) (input_image m))
     = Inr (fold (\<lambda>r. fold (?cell r) (counter_values 28)) (counter_values 28) (map (\<lambda>_. 0) (input_image m)))
     \<and> ?P (fold (\<lambda>r. fold (?cell r) (counter_values 28)) (counter_values 28) (map (\<lambda>_. 0) (input_image m)))"
    by (rule forE_fold [where P = ?P]) (use row img in simp_all)
  then show ?thesis
    by (simp add: convertImage_def MNIST_HEIGHT_def converted_image_def fold_nested_product)
qed

lemma converted_image_nth:
  assumes "r < 28" "c < 28" "length img = 784"
  shows "converted_image rnd px W H img ! (r * 28 + c) = cell_value rnd px W H (int r) (int c)"
proof -
  let ?f = "\<lambda>(r::int, c::int). nat (r * 28 + c)"
  let ?g = "\<lambda>(r, c). cell_value rnd px W H r c"
  let ?xs = "List.product (counter_values 28) (counter_values 28)"
  have fold_eq: "converted_image rnd px W H img = fold (\<lambda>i ys. ys[?f i := ?g i]) ?xs img"
    unfolding converted_image_def by (rule arg_cong [where f = "\<lambda>h. fold h ?xs img"]) auto
  have mem: "(int r, int c) \<in> set ?xs" using assms by (simp add: set_counter_values)
  have dist: "distinct ?xs" by (simp add: distinct_product distinct_counter_values)
  have inj: "inj_on ?f (set ?xs)"
  proof (rule inj_onI)
    fix p q assume p: "p \<in> set ?xs" and q: "q \<in> set ?xs" and eq: "?f p = ?f q"
    obtain a b where pab: "p = (a, b)" by (cases p)
    obtain a' b' where qab: "q = (a', b')" by (cases q)
    have rng: "0 \<le> a" "a < 28" "0 \<le> b" "b < 28" "0 \<le> a'" "a' < 28" "0 \<le> b'" "b' < 28"
      using p q by (simp_all add: pab qab set_counter_values)
    have "0 \<le> a * 28 + b" "0 \<le> a' * 28 + b'" using rng by simp_all
    then have "a * 28 + b = a' * 28 + b'" using eq by (simp add: pab qab)
    then have e: "28 * a + b = 28 * a' + b'" by simp
    have "a = a'" using e rng(3,4,7,8) by linarith
    then have "a = a' \<and> b = b'" using e by simp
    then show "p = q" by (simp add: pab qab)
  qed
  have "fold (\<lambda>i ys. ys[?f i := ?g i]) ?xs img ! ?f (int r, int c) = ?g (int r, int c)"
    by (rule fold_update_hit [OF mem dist inj]) (use assms in simp)
  moreover have "?f (int r, int c) = r * 28 + c" by (simp add: nat_add_distrib nat_mult_distrib)
  ultimately show ?thesis by (simp add: fold_eq)
qed

lemma length_converted_image [simp]: "length (converted_image rnd px W H img) = length img"
proof -
  let ?f = "\<lambda>(r::int, c::int). nat (r * 28 + c)"
  let ?g = "\<lambda>(r, c). cell_value rnd px W H r c"
  let ?xs = "List.product (counter_values 28) (counter_values 28)"
  have fold_eq: "converted_image rnd px W H img = fold (\<lambda>i ys. ys[?f i := ?g i]) ?xs img"
    unfolding converted_image_def by (rule arg_cong [where f = "\<lambda>h. fold h ?xs img"]) auto
  show ?thesis unfolding fold_eq by simp
qed

lemma forE_Inr_body:
  "forE body xs s = Inr s' \<Longrightarrow> i \<in> set xs \<Longrightarrow> \<exists>s1 s2. body i s1 = Inr s2"
proof (induction xs arbitrary: s)
  case Nil
  then show ?case by simp
next
  case (Cons a xs)
  from Cons.prems(1) obtain t where t: "body a s = Inr t" "forE body xs t = Inr s'"
    by (auto split: sum.splits)
  show ?case
  proof (cases "i = a")
    case True
    then show ?thesis using t(1) by blast
  next
    case False
    then show ?thesis using Cons.IH [OF t(2)] Cons.prems(2) by simp
  qed
qed

lemma bindE_eq_Inr: "bindE m f = Inr y \<Longrightarrow> \<exists>x. m = Inr x \<and> f x = Inr y"
  by (cases m) simp_all

lemma convertImage_needs_source_index:
  assumes ok: "convertImage rnd px W H m = Inr m'"
    and r: "0 \<le> r" "r < 28" and c: "0 \<le> c" "c < 28"
  shows "\<exists>i. source_index W H r c = Inr i"
proof -
  from ok obtain img where
    "forE (convert_row rnd px W H) (counter_values 28) (map (\<lambda>_. 0) (input_image m)) = Inr img"
    unfolding convertImage_def MNIST_HEIGHT_def by (auto dest: bindE_eq_Inr)
  moreover have "r \<in> set (counter_values 28)" using r by (simp add: set_counter_values)
  ultimately obtain s1 s2 where "convert_row rnd px W H r s1 = Inr s2"
    by (blast dest: forE_Inr_body)
  then have "forE (convert_cell rnd px W H r) (counter_values 28) s1 = Inr s2"
    by (simp add: convert_row_def MNIST_WIDTH_def)
  moreover have "c \<in> set (counter_values 28)" using c by (simp add: set_counter_values)
  ultimately obtain t1 t2 where "convert_cell rnd px W H r c t1 = Inr t2"
    by (blast dest: forE_Inr_body)
  then show ?thesis unfolding convert_cell_def by (auto dest: bindE_eq_Inr)
qed

lemma convertImage_fault:
  assumes "source_index W H r c = Inl f" "0 \<le> r" "r < 28" "0 \<le> c" "c < 28"
  shows "isl (convertImage rnd px W H m)"
proof (cases "convertImage rnd px W H m")
  case (Inl e)
  then show ?thesis by simp
next
  case (Inr m')
  from convertImage_needs_source_index [OF Inr assms(2-5)] assms(1) show ?thesis by simp
qed

lemma in_int_eq_Inr: "in_int x = Inr y \<Longrightarrow> y = x \<and> INT_MIN \<le> x \<and> x \<le> INT_MAX"
  by (simp add: in_int_def split: if_splits)

lemma convertImage_needs_cell:
  assumes ok: "convertImage rnd px W H m = Inr m'"
    and r: "0 \<le> r" "r < 28" and c: "0 \<le> c" "c < 28"
  shows "\<exists>t1 t2. convert_cell rnd px W H r c t1 = Inr t2"
proof -
  from ok obtain img where
    "forE (convert_row rnd px W H) (counter_values 28) (map (\<lambda>_. 0) (input_image m)) = Inr img"
    unfolding convertImage_def MNIST_HEIGHT_def by (auto dest: bindE_eq_Inr)
  moreover have "r \<in> set (counter_values 28)" using r by (simp add: set_counter_values)
  ultimately obtain s1 s2 where "convert_row rnd px W H r s1 = Inr s2"
    by (blast dest: forE_Inr_body)
  then have "forE (convert_cell rnd px W H r) (counter_values 28) s1 = Inr s2"
    by (simp add: convert_row_def MNIST_WIDTH_def)
  moreover have "c \<in> set (counter_values 28)" using c by (simp add: set_counter_values)
  ultimately show ?thesis by (blast dest: forE_Inr_body)
qed

lemma convert_cell_needs_fit:
  assumes W: "1 \<le> W" and H: "1 \<le> H"
    and ok: "convert_cell rnd px W H 27 27 t1 = Inr t2"
  shows "index_fits W H"
proof -
  from ok obtain idx i2 where si: "source_index W H 27 27 = Inr idx" and i2: "iadd idx 2 = Inr i2"
    unfolding convert_cell_def by (auto dest!: bindE_eq_Inr)
  from si obtain rh srcY cw srcX yw p where
    1: "imul 27 H = Inr rh" and 2: "idiv rh MNIST_HEIGHT = Inr srcY" and
    3: "imul 27 W = Inr cw" and 4: "idiv cw MNIST_WIDTH = Inr srcX" and
    5: "imul srcY W = Inr yw" and 6: "iadd yw srcX = Inr p" and 7: "imul p 4 = Inr idx"
    unfolding source_index_def by (auto dest!: bindE_eq_Inr)
  have rh: "rh = 27 * H" "27 * H \<le> INT_MAX" using 1 by (auto simp: imul_def dest: in_int_eq_Inr)
  have cw: "cw = 27 * W" "27 * W \<le> INT_MAX" using 3 by (auto simp: imul_def dest: in_int_eq_Inr)
  have "srcY = rh sdiv 28" using 2 by (auto simp: idiv_def MNIST_HEIGHT_def dest: in_int_eq_Inr)
  then have srcY: "srcY = 27 * H div 28" using H rh(1) by (simp add: sdiv_nonneg)
  have "srcX = cw sdiv 28" using 4 by (auto simp: idiv_def MNIST_WIDTH_def dest: in_int_eq_Inr)
  then have srcX: "srcX = 27 * W div 28" using W cw(1) by (simp add: sdiv_nonneg)
  have yw: "yw = srcY * W" using 5 by (auto simp: imul_def dest: in_int_eq_Inr)
  have p: "p = yw + srcX" using 6 by (auto simp: iadd_def dest: in_int_eq_Inr)
  have idx: "idx = p * 4" using 7 by (auto simp: imul_def dest: in_int_eq_Inr)
  have "idx + 2 \<le> INT_MAX" using i2 by (auto simp: iadd_def dest: in_int_eq_Inr)
  then show ?thesis
    using rh(2) cw(2) by (simp add: index_fits_def idx p yw srcY srcX)
qed

text \<open>The bound \<open>index_fits\<close> is exact: for a capture that meets the precondition,
  \<open>convertImage\<close> returns normally if and only if the bound holds.\<close>

lemma convertImage_succeeds_iff_index_fits:
  assumes "1 \<le> W" and "1 \<le> H" and "length px = nat (W * H * 4)"
    and "length (input_image m) = 784"
  shows "(\<exists>m'. convertImage rnd px W H m = Inr m') \<longleftrightarrow> index_fits W H"
proof
  assume "\<exists>m'. convertImage rnd px W H m = Inr m'"
  then obtain m' where "convertImage rnd px W H m = Inr m'" ..
  from convertImage_needs_cell [OF this, of 27 27]
  obtain t1 t2 where "convert_cell rnd px W H 27 27 t1 = Inr t2" by auto
  then show "index_fits W H" by (rule convert_cell_needs_fit [OF assms(1,2)])
next
  assume "index_fits W H"
  then show "\<exists>m'. convertImage rnd px W H m = Inr m'"
    using convertImage_ok [OF assms(1,2) _ assms(3,4), of rnd] by simp
qed

lemma gray_value_range:
  assumes mono: "monotone_rounding rnd" and ex: "exact_on_integers rnd"
  shows "0 \<le> gray_value rnd r g b \<and> gray_value rnd r g b \<le> 1"
proof -
  define s where "s = uint r + uint g + uint b"
  have u: "0 \<le> uint r" "uint r \<le> 255" "0 \<le> uint g" "uint g \<le> 255" "0 \<le> uint b" "uint b \<le> 255"
    using uint_lt2p [of r] uint_lt2p [of g] uint_lt2p [of b] by simp_all
  have s: "0 \<le> s" "s \<le> 765" using u by (simp_all add: s_def)
  have fixed: "rnd 0 = 0" "rnd 1 = 1" "rnd 255 = 255"
    using ex [unfolded exact_on_integers_def, rule_format, of 0]
      ex [unfolded exact_on_integers_def, rule_format, of 1]
      ex [unfolded exact_on_integers_def, rule_format, of 255] by simp_all
  have m: "rnd x \<le> rnd y" if "x \<le> y" for x y
    using mono that by (simp add: monotone_rounding_def)
  have conv: "float_of_int rnd s = of_int s"
    unfolding float_of_int_def using ex s by (simp add: exact_on_integers_def)
  define val where "val = fdiv rnd (float_of_int rnd s) 3"
  have "0 \<le> (of_int s :: real) / 3" "(of_int s :: real) / 3 \<le> 255" using s by simp_all
  then have val: "0 \<le> val" "val \<le> 255"
    unfolding val_def fdiv_def conv using m [of 0 "of_int s / 3"] m [of "of_int s / 3" 255] fixed
    by simp_all
  define t where "t = fsub rnd 255 val"
  have t: "0 \<le> t" "t \<le> 255"
    unfolding t_def fsub_def using m [of 0 "255 - val"] m [of "255 - val" 255] fixed val by simp_all
  have "0 \<le> fdiv rnd t 255" "fdiv rnd t 255 \<le> 1"
    unfolding fdiv_def using m [of 0 "t / 255"] m [of "t / 255" 1] fixed t by simp_all
  then show ?thesis by (simp add: gray_value_def Let_def s_def val_def t_def)
qed

lemma cell_value_gray:
  "cell_value rnd px W H r c =
     (let i = nat (source_offset W H r c) in gray_value rnd (px ! i) (px ! (i + 1)) (px ! (i + 2)))"
  by (simp add: cell_value_def luminance_def gray_value_def Let_def)

lemma converted_image_range:
  assumes mono: "monotone_rounding rnd" and ex: "exact_on_integers rnd"
    and len: "length img = 784" and v: "v \<in> set (converted_image rnd px W H img)"
  shows "0 \<le> v \<and> v \<le> 1"
proof -
  from v obtain k where k: "k < 784" "v = converted_image rnd px W H img ! k"
    by (auto simp: in_set_conv_nth len)
  have "k = (k div 28) * 28 + k mod 28" by simp
  moreover have "k div 28 < 28" "k mod 28 < 28" using k(1) by simp_all
  ultimately have "v = cell_value rnd px W H (int (k div 28)) (int (k mod 28))"
    using converted_image_nth [OF _ _ len, of "k div 28" "k mod 28" rnd px W H] k(2) by simp
  then show ?thesis using gray_value_range [OF mono ex] by (simp add: cell_value_gray Let_def)
qed

section \<open>softmax and Run\<close>

subsection \<open>max_element: the first greatest element\<close>

lemma max_element_scan:
  fixes xs :: "real list"
  assumes "1 \<le> n" "n \<le> length xs"
  shows "fold (\<lambda>i largest. if xs ! largest < xs ! i then i else largest) [1..<n] 0 < n \<and>
         (\<forall>j<n. xs ! j \<le> xs ! fold (\<lambda>i largest. if xs ! largest < xs ! i then i else largest) [1..<n] 0) \<and>
         (\<forall>j<fold (\<lambda>i largest. if xs ! largest < xs ! i then i else largest) [1..<n] 0.
            xs ! j < xs ! fold (\<lambda>i largest. if xs ! largest < xs ! i then i else largest) [1..<n] 0)"
  using assms
proof (induction n)
  case 0
  then show ?case by simp
next
  case (Suc n)
  let ?step = "\<lambda>i largest. if xs ! largest < xs ! i then i else largest"
  show ?case
  proof (cases "n = 0")
    case True
    then show ?thesis by simp
  next
    case False
    then have n: "1 \<le> n" "n \<le> length xs" using Suc.prems by simp_all
    define k where "k = fold ?step [1..<n] 0"
    from Suc.IH [OF n] have ih: "k < n" "\<forall>j<n. xs ! j \<le> xs ! k" "\<forall>j<k. xs ! j < xs ! k"
      by (simp_all add: k_def)
    have step: "fold ?step [1..<Suc n] 0 = ?step n k"
      using n(1) by (simp add: k_def)
    show ?thesis
    proof (cases "xs ! k < xs ! n")
      case True
      have "\<forall>j<Suc n. xs ! j \<le> xs ! n" using ih(2) True by (auto simp: less_Suc_eq)
      moreover have "\<forall>j<n. xs ! j < xs ! n" using ih(2) True by fastforce
      ultimately show ?thesis unfolding step using True by simp
    next
      case False
      have "\<forall>j<Suc n. xs ! j \<le> xs ! k" using ih(2) False by (auto simp: less_Suc_eq)
      then show ?thesis unfolding step using False ih by simp
    qed
  qed
qed

lemma max_element_first_greatest:
  assumes "xs \<noteq> []"
  shows "max_element xs < length xs"
    and "j < length xs \<Longrightarrow> xs ! j \<le> xs ! max_element xs"
    and "j < max_element xs \<Longrightarrow> xs ! j < xs ! max_element xs"
  using max_element_scan [of "length xs" xs] assms
  by (simp_all add: max_element_def Suc_le_eq)

lemma max_element_Max:
  assumes "xs \<noteq> []"
  shows "xs ! max_element xs = Max (set xs)"
proof (rule antisym)
  show "xs ! max_element xs \<le> Max (set xs)"
    using max_element_first_greatest(1) [OF assms] by simp
  show "Max (set xs) \<le> xs ! max_element xs"
    using assms max_element_first_greatest(2) [OF assms] by (auto simp: in_set_conv_nth)
qed

lemma max_element_unique:
  assumes "xs \<noteq> []" "k < length xs" "\<forall>j<length xs. xs ! j \<le> xs ! k" "\<forall>j<k. xs ! j < xs ! k"
  shows "max_element xs = k"
proof -
  let ?m = "max_element xs"
  note m = max_element_first_greatest [OF assms(1)]
  have "\<not> ?m < k" using assms(4) m(2) [OF assms(2)] by (meson leD)
  moreover have "\<not> k < ?m" using m(3) [of k] assms(3) m(1) by (meson leD)
  ultimately show ?thesis by simp
qed

subsection \<open>The two loops of softmax\<close>

lemma fold_pair:
  "fold (\<lambda>i (y, s). (F i y, G i s)) xs (y0, s0) = (fold F xs y0, fold G xs s0)"
  by (induction xs arbitrary: y0 s0) simp_all

lemma fold_update_upt:
  "n \<le> length xs \<Longrightarrow> fold (\<lambda>i ys. ys[i := h i]) [0..<n] xs = map h [0..<n] @ drop n xs"
proof (induction n)
  case 0
  then show ?case by simp
next
  case (Suc n)
  then have n: "n < length xs" by simp
  have "(map h [0..<n] @ drop n xs)[n := h n] = map h [0..<n] @ (drop n xs)[0 := h n]"
    by (simp add: list_update_append)
  also have "(drop n xs)[0 := h n] = h n # drop (Suc n) xs"
    using n by (simp add: Cons_nth_drop_Suc [symmetric])
  finally show ?case using Suc by simp
qed

lemma fold_accumulate_upt:
  "n \<le> length xs \<Longrightarrow> fold (\<lambda>i s. f s (g (xs ! i))) [0..<n] s0 = foldl f s0 (map g (take n xs))"
proof (induction n)
  case 0
  then show ?case by simp
next
  case (Suc n)
  then show ?case by (simp add: take_Suc_conv_app_nth)
qed

lemma softmax_eq_formula:
  assumes "logits \<noteq> []"
  shows "softmax rnd fexp logits = Inr (softmax_formula rnd fexp logits)"
proof -
  define m where "m = Max (set logits)"
  define g where "g = (\<lambda>l. fexp (fsub rnd l m))"
  define n where "n = length logits"
  have loop1: "fold (\<lambda>i (y, sum). (y[i := fexp (fsub rnd (logits ! i) m)],
                                   fadd rnd sum (fexp (fsub rnd (logits ! i) m))))
          [0..<n] (replicate n 0, 0)
        = (map g logits, float_sum rnd (map g logits))"
  proof -
    have "(\<lambda>i (y, sum). (y[i := fexp (fsub rnd (logits ! i) m)],
                         fadd rnd sum (fexp (fsub rnd (logits ! i) m))))
        = (\<lambda>i (y, s). ((\<lambda>i y. y[i := g (logits ! i)]) i y, (\<lambda>i s. fadd rnd s (g (logits ! i))) i s))"
      by (simp add: g_def)
    moreover have "fold (\<lambda>i y. y[i := g (logits ! i)]) [0..<n] (replicate n 0) = map g logits"
    proof -
      have "map (\<lambda>i. g (logits ! i)) [0..<n] = map g logits"
        by (rule nth_equalityI) (simp_all add: n_def)
      then show ?thesis
        using fold_update_upt [of n "replicate n 0" "\<lambda>i. g (logits ! i)"] by simp
    qed
    moreover have "fold (\<lambda>i s. fadd rnd s (g (logits ! i))) [0..<n] 0 = float_sum rnd (map g logits)"
      using fold_accumulate_upt [of n logits "fadd rnd" g 0] by (simp add: n_def float_sum_def)
    ultimately show ?thesis by (simp add: fold_pair)
  qed
  have loop2: "fold (\<lambda>i inp. inp[i := fdiv rnd (map g logits ! i) s]) [0..<n] logits
        = map (\<lambda>l. fdiv rnd (g l) s) logits" for s
  proof -
    have "fold (\<lambda>i inp. inp[i := fdiv rnd (map g logits ! i) s]) [0..<n] logits
        = map (\<lambda>i. fdiv rnd (map g logits ! i) s) [0..<n]"
      using fold_update_upt [of n logits "\<lambda>i. fdiv rnd (map g logits ! i) s"] by (simp add: n_def)
    also have "\<dots> = map (\<lambda>l. fdiv rnd (g l) s) logits"
      by (rule nth_equalityI) (simp_all add: n_def)
    finally show ?thesis .
  qed
  show ?thesis
    using assms
    by (simp add: softmax_def softmax_formula_def max_element_Max m_def [symmetric]
        n_def [symmetric] loop1 loop2 Let_def) (simp add: g_def)
qed

lemma softmax_empty: "softmax rnd fexp [] = Inl OutOfBounds"
  by (simp add: softmax_def)

lemma float_sum_exact: "float_sum (\<lambda>x. x) xs = sum_list xs"
proof -
  have "foldl (\<lambda>a b. a + b) s xs = s + sum_list xs" for s :: real
    by (induction xs arbitrary: s) simp_all
  then show ?thesis by (simp add: float_sum_def fadd_def [abs_def])
qed

lemma softmax_formula_exact: "softmax_formula (\<lambda>x. x) exp logits = softmax_reference logits"
  by (simp add: softmax_formula_def softmax_reference_def float_sum_exact fsub_def fdiv_def Let_def)

lemma Max_shift:
  fixes xs :: "real list"
  assumes "xs \<noteq> []"
  shows "Max ((\<lambda>l. l + C) ` set xs) = Max (set xs) + C"
  using assms by (intro Max_eqI) (auto intro: Max_ge Max_in)

lemma softmax_formula_shift:
  assumes "logits \<noteq> []"
  shows "softmax_formula rnd fexp (map (\<lambda>l. l + C) logits) = softmax_formula rnd fexp logits"
  by (simp add: softmax_formula_def Max_shift [OF assms] fsub_def comp_def Let_def)

lemma softmax_shift: "softmax rnd fexp (map (\<lambda>l. l + C) logits) = softmax rnd fexp logits"
proof (cases "logits = []")
  case True
  then show ?thesis by simp
next
  case False
  then show ?thesis by (simp add: softmax_eq_formula softmax_formula_shift)
qed

lemma Run_ok:
  assumes "session_Run (session m) (input_image m) = Inr logits" and "logits \<noteq> []"
  shows "Run rnd fexp session_Run m =
     Inr (int (max_element (softmax_formula rnd fexp logits)),
          m\<lparr>results := softmax_formula rnd fexp logits\<rparr>)"
  using assms by (simp add: Run_def softmax_eq_formula)

lemma length_softmax_formula [simp]: "length (softmax_formula rnd fexp logits) = length logits"
  by (simp add: softmax_formula_def Let_def)

lemma softmax_formula_nth:
  "i < length logits \<Longrightarrow>
     softmax_formula rnd fexp logits ! i =
       fdiv rnd (fexp (fsub rnd (logits ! i) (Max (set logits))))
         (float_sum rnd (map (\<lambda>l. fexp (fsub rnd l (Max (set logits)))) logits))"
  by (simp add: softmax_formula_def Let_def)

section \<open>Failures of the engine: loading and running\<close>

lemma canvas_fits: "index_fits width height"
  by (simp add: index_fits_def width_def height_def MNIST_WIDTH_def MNIST_HEIGHT_def INT_MAX_def)

lemma convertImage_canvas:
  assumes "length pixels = nat (width * height * 4)" and "length (input_image m) = 784"
  shows "convertImage rnd pixels width height m =
     Inr (m\<lparr>input_image := converted_image rnd pixels width height (map (\<lambda>_. 0) (input_image m))\<rparr>)"
  by (rule convertImage_ok [OF _ _ canvas_fits assms])
    (simp_all add: width_def height_def MNIST_WIDTH_def MNIST_HEIGHT_def)

section \<open>binary32, and the decision against the raw logits\<close>

lemma floor_log2:
  assumes "2 powr of_int e \<le> x" "x < 2 powr (of_int e + 1)"
  shows "\<lfloor>log 2 x\<rfloor> = e"
proof -
  have "0 < x" using assms(1) by (rule less_le_trans [rotated]) simp
  then show ?thesis using assms by (simp add: floor_log_eq_powr_iff)
qed

lemma round_half_even_int [simp]: "round_half_even (of_int n) = n"
  by (simp add: round_half_even_def)

lemma binary32_1: "binary32 1 = 1"
proof -
  have "\<lfloor>log 2 (1::real)\<rfloor> = 0" by simp
  then have e: "binary32_exponent 1 = - 23" by (simp add: binary32_exponent_def)
  have p: "2 powr of_int (- 23) = (1 / 2 ^ 23 :: real)"
    by (simp add: powr_minus_divide powr_realpow [symmetric])
  have "1 / (1 / 2 ^ 23 :: real) = of_int (2 ^ 23)" by simp
  then have "round_half_even (1 / (1 / 2 ^ 23)) = 2 ^ 23" by (simp only: round_half_even_int)
  then show ?thesis unfolding binary32_def e p by simp
qed

lemma binary32_below_1:
  assumes "1 - 1 / 2 ^ 25 \<le> y" "y < 1"
  shows "binary32 y = 1"
proof -
  have y: "0 < y" "1 / 2 \<le> y" using assms(1) by simp_all
  have "\<lfloor>log 2 y\<rfloor> = - 1"
    by (rule floor_log2) (use y assms(2) in \<open>simp_all add: powr_minus_divide\<close>)
  then have e: "binary32_exponent y = - 24" using y by (simp add: binary32_exponent_def)
  have p: "2 powr of_int (- 24) = (1 / 2 ^ 24 :: real)"
    by (simp add: powr_minus_divide powr_realpow [symmetric])
  define z where "z = y / (1 / 2 ^ 24)"
  have z: "16777216 - 1 / 2 \<le> z" "z < 16777216" using assms by (simp_all add: z_def field_simps)
  have f: "\<lfloor>z\<rfloor> = 16777215" using z by (intro floor_unique) simp_all
  have "round_half_even z = 16777216"
    using z by (simp add: round_half_even_def f Let_def)
  then show ?thesis using y unfolding binary32_def e p z_def [symmetric] by simp
qed

lemma binary32_neg_power: "binary32 (- (1 / 2 ^ 30)) = - (1 / 2 ^ 30)"
proof -
  have "\<lfloor>log 2 (1 / 2 ^ 30 :: real)\<rfloor> = - 30"
    by (rule floor_log2) (simp_all add: powr_minus_divide powr_realpow [symmetric])
  then have e: "binary32_exponent (- (1 / 2 ^ 30)) = - 53" by (simp add: binary32_exponent_def)
  have p: "2 powr of_int (- 53) = (1 / 2 ^ 53 :: real)"
    by (simp add: powr_minus_divide powr_realpow [symmetric])
  have "- (1 / 2 ^ 30) / (1 / 2 ^ 53 :: real) = of_int (- (2 ^ 23))" by simp
  then have "round_half_even (- (1 / 2 ^ 30) / (1 / 2 ^ 53)) = - (2 ^ 23)"
    by (simp only: round_half_even_int)
  then show ?thesis unfolding binary32_def e p by simp
qed

lemma binary32_neg_tiny: "binary32 (- tiny) = - tiny"
  unfolding tiny_def by (rule binary32_neg_power)

lemma expf_0: "expf 0 = 1"
  by (simp add: expf_def binary32_1)

lemma expf_neg_power: "expf (- (1 / 2 ^ 30)) = 1"
proof -
  have "1 + (- (1 / 2 ^ 30)) \<le> exp (- (1 / 2 ^ 30) :: real)" by (rule exp_ge_add_one_self)
  then have "1 - 1 / 2 ^ 25 \<le> exp (- (1 / 2 ^ 30) :: real)" by simp
  moreover have "exp (- (1 / 2 ^ 30) :: real) < 1" by simp
  ultimately show ?thesis unfolding expf_def by (rule binary32_below_1)
qed

lemma expf_neg_tiny: "expf (- tiny) = 1"
  unfolding tiny_def by (rule expf_neg_power)

lemma max_element_all_equal:
  assumes "\<And>i. i < length xs \<Longrightarrow> xs ! i = c"
  shows "max_element xs = 0"
proof (cases "xs = []")
  case True
  then show ?thesis by (simp add: max_element_def)
next
  case False
  show ?thesis
  proof (rule ccontr)
    assume "max_element xs \<noteq> 0"
    then have "0 < max_element xs" by simp
    then have "xs ! 0 < xs ! max_element xs" by (rule max_element_first_greatest(3) [OF False])
    moreover have "xs ! 0 = c" using False by (intro assms) simp
    moreover have "xs ! max_element xs = c"
      by (intro assms max_element_first_greatest(1) [OF False])
    ultimately show False by simp
  qed
qed

lemma rounding_nonneg:
  assumes "monotone_rounding rnd" "exact_on_integers rnd" "0 \<le> x"
  shows "0 \<le> rnd x"
proof -
  have "rnd 0 = 0" using assms(2) [unfolded exact_on_integers_def, rule_format, of 0] by simp
  moreover have "rnd 0 \<le> rnd x" using assms(1,3) by (simp add: monotone_rounding_def)
  ultimately show ?thesis by simp
qed

lemma foldl_fadd_nonneg:
  assumes "monotone_rounding rnd" "exact_on_integers rnd"
  shows "\<forall>y \<in> set ys. 0 \<le> y \<Longrightarrow> 0 \<le> a \<Longrightarrow> 0 \<le> foldl (fadd rnd) a ys"
proof (induction ys arbitrary: a)
  case Nil
  then show ?case by simp
next
  case (Cons y ys)
  have "0 \<le> fadd rnd a y"
    unfolding fadd_def using Cons.prems by (intro rounding_nonneg [OF assms]) simp
  then show ?case using Cons by simp
qed

lemma float_sum_nonneg:
  assumes "monotone_rounding rnd" "exact_on_integers rnd" "\<forall>y \<in> set ys. 0 \<le> y"
  shows "0 \<le> float_sum rnd ys"
  unfolding float_sum_def using foldl_fadd_nonneg [OF assms(1,2) assms(3)] by simp

lemma softmax_formula_mono:
  assumes mono: "monotone_rounding rnd" and ex: "exact_on_integers rnd" and pe: "plausible_exp fexp"
    and i: "i < length logits" and j: "j < length logits" and le: "logits ! i \<le> logits ! j"
  shows "softmax_formula rnd fexp logits ! i \<le> softmax_formula rnd fexp logits ! j"
proof -
  define mx where "mx = Max (set logits)"
  define s where "s = float_sum rnd (map (\<lambda>l. fexp (fsub rnd l mx)) logits)"
  have m: "rnd x \<le> rnd y" if "x \<le> y" for x y
    using mono that by (simp add: monotone_rounding_def)
  have fe: "fexp x \<le> fexp y" if "x \<le> y" for x y
    using pe that by (simp add: plausible_exp_def)
  have "0 \<le> s" unfolding s_def
    by (rule float_sum_nonneg [OF mono ex]) (use pe in \<open>auto simp: plausible_exp_def\<close>)
  moreover have "fexp (fsub rnd (logits ! i) mx) \<le> fexp (fsub rnd (logits ! j) mx)"
    unfolding fsub_def using le by (intro fe m) simp
  ultimately have "fexp (fsub rnd (logits ! i) mx) / s \<le> fexp (fsub rnd (logits ! j) mx) / s"
    by (rule divide_right_mono [rotated])
  then show ?thesis
    using i j by (simp add: softmax_formula_nth mx_def s_def fdiv_def m)
qed

lemma argmax_after_monotone_map:
  fixes ls ps :: "real list"
  assumes len: "length ps = length ls" and ne: "ls \<noteq> []"
    and mono: "\<And>i j. i < length ls \<Longrightarrow> j < length ls \<Longrightarrow> ls ! i \<le> ls ! j \<Longrightarrow> ps ! i \<le> ps ! j"
  shows "max_element ps \<le> max_element ls"
    and "ps ! max_element ps = ps ! max_element ls"
    and "(\<forall>i<length ls. ls ! i < ls ! max_element ls \<longrightarrow> ps ! i < ps ! max_element ls)
           \<Longrightarrow> max_element ps = max_element ls"
proof -
  let ?k = "max_element ps" and ?j = "max_element ls"
  have pne: "ps \<noteq> []" using len ne by auto
  note l = max_element_first_greatest [OF ne]
  note p = max_element_first_greatest [OF pne]
  have kl: "?k < length ls" using p(1) len by simp
  have jp: "?j < length ps" using l(1) len by simp
  have "ps ! ?k \<le> ps ! ?j" by (rule mono [OF kl l(1)]) (rule l(2) [OF kl])
  moreover have "ps ! ?j \<le> ps ! ?k" by (rule p(2) [OF jp])
  ultimately show eq: "ps ! ?k = ps ! ?j" by simp
  show le: "?k \<le> ?j"
  proof (rule ccontr)
    assume "\<not> ?k \<le> ?j"
    then have "ps ! ?j < ps ! ?k" by (intro p(3)) simp
    then show False using eq by simp
  qed
  show "?k = ?j" if strict: "\<forall>i<length ls. ls ! i < ls ! ?j \<longrightarrow> ps ! i < ps ! ?j"
  proof (rule ccontr)
    assume "?k \<noteq> ?j"
    then have "?k < ?j" using le by simp
    then have "ls ! ?k < ls ! ?j" by (rule l(3))
    then have "ps ! ?k < ps ! ?j" using strict kl by blast
    then show False using eq by simp
  qed
qed

lemma exact_arithmetic: "monotone_rounding (\<lambda>x. x)" "exact_on_integers (\<lambda>x. x)" "plausible_exp exp"
  by (simp_all add: monotone_rounding_def exact_on_integers_def plausible_exp_def)

lemma softmax_reference_strict:
  assumes "i < length logits" "j < length logits" "logits ! i < logits ! j"
  shows "softmax_reference logits ! i < softmax_reference logits ! j"
proof -
  define mx where "mx = Max (set logits)"
  have "logits ! j \<in> set logits" using assms(2) by simp
  then have "exp (logits ! j - mx) \<le> (\<Sum>l\<leftarrow>logits. exp (l - mx))"
    by (intro member_le_sum_list) auto
  then have "0 < (\<Sum>l\<leftarrow>logits. exp (l - mx))"
    by (rule less_le_trans [rotated]) simp
  then show ?thesis
    using assms by (simp add: softmax_reference_def mx_def [symmetric] divide_strict_right_mono)
qed

lemma Run_exact_argmax:
  assumes run: "session_Run (session m) (input_image m) = Inr logits" and ne: "logits \<noteq> []"
  shows "Run (\<lambda>x. x) exp session_Run m =
     Inr (int (max_element logits), m\<lparr>results := softmax_reference logits\<rparr>)"
proof -
  let ?ps = "softmax_reference logits"
  have len: "length ?ps = length logits" by (simp add: softmax_reference_def)
  have mono: "?ps ! i \<le> ?ps ! j" if "i < length logits" "j < length logits" "logits ! i \<le> logits ! j" for i j
    using softmax_formula_mono [OF exact_arithmetic that] by (simp add: softmax_formula_exact)
  have "max_element ?ps = max_element logits"
    by (rule argmax_after_monotone_map(3) [OF len ne mono])
      (use softmax_reference_strict max_element_first_greatest(1) [OF ne] in blast)+
  then show ?thesis
    using Run_ok [where session_Run = session_Run and m = m and rnd = "\<lambda>x. x" and fexp = exp, OF run ne]
    by (simp add: softmax_formula_exact)
qed

lemma tiny_pos: "0 < tiny"
  by (simp add: tiny_def)

lemma set_tiny_logits: "set tiny_logits = {0, tiny}"
  by (auto simp: tiny_logits_def)

lemma max_element_tiny_logits: "max_element tiny_logits = 1"
proof (rule max_element_unique)
  show "tiny_logits \<noteq> []" "1 < length tiny_logits" by (simp_all add: tiny_logits_def)
  have 1: "tiny_logits ! 1 = tiny" and 0: "tiny_logits ! 0 = 0" by (simp_all add: tiny_logits_def)
  show "\<forall>j<length tiny_logits. tiny_logits ! j \<le> tiny_logits ! 1"
  proof (intro allI impI)
    fix j assume "j < length tiny_logits"
    then have "tiny_logits ! j \<in> {0, tiny}" using set_tiny_logits nth_mem by blast
    then show "tiny_logits ! j \<le> tiny_logits ! 1" using tiny_pos unfolding 1 by auto
  qed
  show "\<forall>j<1. tiny_logits ! j < tiny_logits ! 1" using tiny_pos 0 1 by simp
qed

lemma tiny_run:
  "(\<lambda>(s::OrtSession) (img::real list). Inr tiny_logits :: string + real list)
      (session loaded_model) (input_image loaded_model) = Inr tiny_logits"
  by simp

section \<open>Rounding errors of the sum and of the quotients\<close>

lemma roundoff_range: "0 \<le> unit_roundoff" "unit_roundoff \<le> 1" "0 \<le> underflow_unit"
  by (simp_all add: unit_roundoff_def underflow_unit_def)

lemma rounding_upper:
  assumes "rounding_error_bounded rnd" "0 \<le> x"
  shows "rnd x \<le> x * (1 + unit_roundoff) + underflow_unit"
proof -
  have "\<bar>rnd x - x\<bar> \<le> x * unit_roundoff + underflow_unit"
    using assms(1) [unfolded rounding_error_bounded_def, rule_format, of x] assms(2) by simp
  then show ?thesis by (simp add: algebra_simps abs_le_iff)
qed

lemma rounding_lower:
  assumes "rounding_error_bounded rnd" "0 \<le> x"
  shows "x * (1 - unit_roundoff) - underflow_unit \<le> rnd x"
proof -
  have "\<bar>rnd x - x\<bar> \<le> x * unit_roundoff + underflow_unit"
    using assms(1) [unfolded rounding_error_bounded_def, rule_format, of x] assms(2) by simp
  then show ?thesis by (simp add: algebra_simps abs_le_iff)
qed

lemma foldl_fadd_upper:
  assumes eb: "rounding_error_bounded rnd" and mono: "monotone_rounding rnd"
    and ex: "exact_on_integers rnd"
  shows "\<forall>y \<in> set ys. 0 \<le> y \<Longrightarrow> 0 \<le> a \<Longrightarrow>
     foldl (fadd rnd) a ys \<le> (1 + unit_roundoff) ^ length ys * (a + sum_list ys)
        + real (length ys) * (1 + unit_roundoff) ^ length ys * underflow_unit"
proof (induction ys arbitrary: a)
  case Nil
  then show ?case by simp
next
  case (Cons y ys)
  define u e where "u = unit_roundoff" and "e = underflow_unit"
  define n P S where "n = real (length ys)" and "P = (1 + u) ^ length ys" and "S = sum_list ys"
  have u: "0 \<le> u" "0 \<le> e" using roundoff_range by (simp_all add: u_def e_def)
  have n: "0 \<le> n" by (simp add: n_def)
  have P: "0 \<le> P" using u by (simp add: P_def)
  have S: "0 \<le> S" unfolding S_def using Cons.prems(1) by (intro sum_list_nonneg) simp
  have ay: "0 \<le> a + y" using Cons.prems by simp
  define b where "b = fadd rnd a y"
  have b0: "0 \<le> b" unfolding b_def fadd_def by (rule rounding_nonneg [OF mono ex ay])
  have bu: "b \<le> (a + y) * (1 + u) + e"
    unfolding b_def fadd_def u_def e_def by (rule rounding_upper [OF eb ay])
  have "foldl (fadd rnd) b ys \<le> P * (b + S) + n * P * e"
    using Cons.IH [of b] Cons.prems(1) b0 by (simp add: P_def S_def n_def u_def e_def)
  also have "\<dots> = P * (b + S + n * e)" by (simp add: algebra_simps)
  also have "\<dots> \<le> P * ((1 + u) * (a + y + S) + (n + 1) * (1 + u) * e)"
  proof (rule mult_left_mono [OF _ P])
    have "0 \<le> u * S" "0 \<le> u * e * (n + 1)" using u S n by simp_all
    then show "b + S + n * e \<le> (1 + u) * (a + y + S) + (n + 1) * (1 + u) * e"
      using bu by (simp add: algebra_simps)
  qed
  also have "\<dots> = (1 + u) ^ length (y # ys) * (a + sum_list (y # ys))
        + real (length (y # ys)) * (1 + u) ^ length (y # ys) * e"
    by (simp add: P_def S_def n_def algebra_simps)
  finally show ?case by (simp add: b_def u_def e_def)
qed

lemma foldl_fadd_lower:
  assumes eb: "rounding_error_bounded rnd" and mono: "monotone_rounding rnd"
    and ex: "exact_on_integers rnd"
  shows "\<forall>y \<in> set ys. 0 \<le> y \<Longrightarrow> 0 \<le> a \<Longrightarrow>
     (1 - unit_roundoff) ^ length ys * (a + sum_list ys) - real (length ys) * underflow_unit
       \<le> foldl (fadd rnd) a ys"
proof (induction ys arbitrary: a)
  case Nil
  then show ?case by simp
next
  case (Cons y ys)
  define u e where "u = unit_roundoff" and "e = underflow_unit"
  define n Q S where "n = real (length ys)" and "Q = (1 - u) ^ length ys" and "S = sum_list ys"
  have u: "0 \<le> u" "u \<le> 1" "0 \<le> e" using roundoff_range by (simp_all add: u_def e_def)
  have n: "0 \<le> n" by (simp add: n_def)
  have Q: "0 \<le> Q" "Q \<le> 1" using u by (simp_all add: Q_def power_le_one)
  have S: "0 \<le> S" unfolding S_def using Cons.prems(1) by (intro sum_list_nonneg) simp
  have ay: "0 \<le> a + y" using Cons.prems by simp
  define b where "b = fadd rnd a y"
  have b0: "0 \<le> b" unfolding b_def fadd_def by (rule rounding_nonneg [OF mono ex ay])
  have bl: "(a + y) * (1 - u) - e \<le> b"
    unfolding b_def fadd_def u_def e_def by (rule rounding_lower [OF eb ay])
  have "Q * ((1 - u) * (a + y + S)) - (n + 1) * e \<le> Q * ((a + y) * (1 - u) - e + S) - n * e"
  proof -
    have "Q * ((1 - u) * (a + y + S)) \<le> Q * ((a + y) * (1 - u) + S)"
    proof (rule mult_left_mono [OF _ Q(1)])
      have "0 \<le> u * S" using u S by simp
      then show "(1 - u) * (a + y + S) \<le> (a + y) * (1 - u) + S" by (simp add: algebra_simps)
    qed
    moreover have "Q * e \<le> 1 * e" using Q(2) u(3) by (rule mult_right_mono)
    ultimately show ?thesis by (simp add: algebra_simps)
  qed
  also have "\<dots> \<le> Q * (b + S) - n * e"
    using bl Q(1) by (simp add: mult_left_mono)
  also have "\<dots> \<le> foldl (fadd rnd) b ys"
    using Cons.IH [of b] Cons.prems(1) b0 by (simp add: Q_def S_def n_def u_def e_def)
  finally have "Q * ((1 - u) * (a + y + S)) - (n + 1) * e \<le> foldl (fadd rnd) b ys" .
  moreover have "Q * ((1 - u) * (a + y + S)) - (n + 1) * e
      = (1 - u) ^ length (y # ys) * (a + sum_list (y # ys)) - real (length (y # ys)) * e"
    by (simp add: Q_def S_def n_def algebra_simps)
  ultimately show ?case by (simp add: b_def u_def e_def)
qed

lemma rounding_one:
  assumes "exact_on_integers rnd"
  shows "rnd 1 = 1" "rnd 0 = 0"
  using assms [unfolded exact_on_integers_def, rule_format, of 1]
    assms [unfolded exact_on_integers_def, rule_format, of 0] by simp_all

lemma foldl_fadd_ge_one:
  assumes mono: "monotone_rounding rnd" and ex: "exact_on_integers rnd"
  shows "\<forall>y \<in> set ys. 0 \<le> y \<Longrightarrow> 1 \<le> a \<Longrightarrow> 1 \<le> foldl (fadd rnd) a ys"
proof (induction ys arbitrary: a)
  case Nil
  then show ?case by simp
next
  case (Cons y ys)
  have "rnd 1 \<le> rnd (a + y)"
    using mono Cons.prems by (simp add: monotone_rounding_def)
  then have "1 \<le> fadd rnd a y" by (simp add: fadd_def rounding_one [OF ex])
  then show ?case using Cons by simp
qed

lemma foldl_fadd_reaches_one:
  assumes mono: "monotone_rounding rnd" and ex: "exact_on_integers rnd"
  shows "\<forall>y \<in> set ys. 0 \<le> y \<Longrightarrow> 1 \<in> set ys \<Longrightarrow> 0 \<le> a \<Longrightarrow> 1 \<le> foldl (fadd rnd) a ys"
proof (induction ys arbitrary: a)
  case Nil
  then show ?case by simp
next
  case (Cons y ys)
  show ?case
  proof (cases "y = 1")
    case True
    have "rnd 1 \<le> rnd (a + 1)" using mono Cons.prems(3) by (simp add: monotone_rounding_def)
    then have "1 \<le> fadd rnd a y" by (simp add: fadd_def True rounding_one [OF ex])
    then show ?thesis using foldl_fadd_ge_one [OF mono ex, of ys] Cons.prems(1) by simp
  next
    case False
    have "0 \<le> fadd rnd a y"
      unfolding fadd_def using Cons.prems by (intro rounding_nonneg [OF mono ex]) simp
    then show ?thesis using Cons False by simp
  qed
qed

lemma roundoff_numeric_upper:
  "(1 + unit_roundoff) * ((1 + 10 * underflow_unit) / (1 - unit_roundoff) ^ 10) + 10 * underflow_unit
     \<le> 1 + 1 / 100000"
  by (simp add: unit_roundoff_def underflow_unit_def power_divide)

lemma roundoff_numeric_lower:
  "1 - 1 / 100000 \<le>
     (1 - unit_roundoff) * ((1 - 10 * (1 + unit_roundoff) ^ 10 * underflow_unit) / (1 + unit_roundoff) ^ 10)
       - 10 * underflow_unit"
  by (simp add: unit_roundoff_def underflow_unit_def power_divide)

lemma sum_list_affine:
  fixes ys :: "real list"
  shows "(\<Sum>y\<leftarrow>ys. y / s * c + d) = sum_list ys / s * c + real (length ys) * d"
  by (induction ys) (simp_all add: algebra_simps add_divide_distrib)

lemma softmax_formula_as_quotients:
  "softmax_formula rnd fexp logits =
     map (\<lambda>y. rnd (y / float_sum rnd (map (\<lambda>l. fexp (fsub rnd l (Max (set logits)))) logits)))
       (map (\<lambda>l. fexp (fsub rnd l (Max (set logits)))) logits)"
  by (simp add: softmax_formula_def Let_def fdiv_def comp_def)

lemma quotient_sum_bounds:
  fixes ys :: "real list"
  assumes eb: "rounding_error_bounded rnd" and mono: "monotone_rounding rnd"
    and ex: "exact_on_integers rnd"
    and nonneg: "\<forall>y \<in> set ys. 0 \<le> y" and one: "1 \<in> set ys" and len: "length ys = 10"
  shows "\<bar>(\<Sum>y\<leftarrow>ys. rnd (y / float_sum rnd ys)) - 1\<bar> \<le> 1 / 100000"
proof -
  define u e where "u = unit_roundoff" and "e = underflow_unit"
  define s S where "s = float_sum rnd ys" and "S = sum_list ys"
  define A A' where "A = (1 + u) ^ 10" and "A' = (1 - u) ^ 10"
  have u: "0 \<le> u" "u < 1" "0 \<le> e" by (simp_all add: u_def e_def unit_roundoff_def underflow_unit_def)
  have A: "0 < A" "0 < A'" using u by (simp_all add: A_def A'_def)
  have S: "0 \<le> S" unfolding S_def using nonneg by (intro sum_list_nonneg) simp
  have s1: "1 \<le> s"
    unfolding s_def float_sum_def using foldl_fadd_reaches_one [OF mono ex nonneg one] by simp
  have up: "s \<le> A * S + 10 * A * e"
    using foldl_fadd_upper [OF eb mono ex nonneg, of 0]
    by (simp add: s_def S_def A_def u_def e_def float_sum_def len)
  have lo: "A' * S - 10 * e \<le> s"
    using foldl_fadd_lower [OF eb mono ex nonneg, of 0]
    by (simp add: s_def S_def A'_def u_def e_def float_sum_def len)
  have q: "0 \<le> y / s" if "y \<in> set ys" for y using that nonneg s1 by simp
  \<comment> \<open>the quotient of the exact sum by the computed sum\<close>
  have r_up: "S / s \<le> (1 + 10 * e) / A'"
  proof -
    have "(10 * e) * 1 \<le> (10 * e) * s" using s1 u(3) by (intro mult_left_mono) simp_all
    then have "10 * e \<le> 10 * e * s" by simp
    then have "A' * S \<le> s * (1 + 10 * e)" using lo by (simp add: algebra_simps)
    then have "S \<le> s * (1 + 10 * e) / A'" using A(2) by (simp add: pos_le_divide_eq mult.commute)
    then have "S / s \<le> s * (1 + 10 * e) / A' / s" using s1 by (intro divide_right_mono) simp_all
    then show ?thesis using s1 by simp
  qed
  have r_lo: "(1 - 10 * A * e) / A \<le> S / s"
  proof -
    have "(10 * A * e) * 1 \<le> (10 * A * e) * s" using s1 u(3) A(1) by (intro mult_left_mono) simp_all
    then have "10 * A * e \<le> 10 * A * e * s" by simp
    then have "s * (1 - 10 * A * e) \<le> A * S" using up by (simp add: algebra_simps)
    then have "s * (1 - 10 * A * e) / A \<le> S" using A(1) by (simp add: pos_divide_le_eq mult.commute)
    then have "s * (1 - 10 * A * e) / A / s \<le> S / s" using s1 by (intro divide_right_mono) simp_all
    then show ?thesis using s1 by simp
  qed
  \<comment> \<open>the sum of the rounded quotients\<close>
  have "(\<Sum>y\<leftarrow>ys. rnd (y / s)) \<le> (\<Sum>y\<leftarrow>ys. y / s * (1 + u) + e)"
    unfolding u_def e_def by (intro sum_list_mono rounding_upper [OF eb] q)
  also have "\<dots> = S / s * (1 + u) + 10 * e"
    using sum_list_affine [of s "1 + u" e ys] by (simp add: S_def len)
  also have "\<dots> \<le> (1 + 10 * e) / A' * (1 + u) + 10 * e"
    by (intro add_right_mono mult_right_mono r_up) (use u in simp)
  also have "\<dots> \<le> 1 + 1 / 100000"
    using roundoff_numeric_upper by (simp add: A'_def u_def e_def mult.commute)
  finally have upper: "(\<Sum>y\<leftarrow>ys. rnd (y / s)) \<le> 1 + 1 / 100000" .
  have "1 - 1 / 100000 \<le> (1 - 10 * A * e) / A * (1 - u) - 10 * e"
    using roundoff_numeric_lower by (simp add: A_def u_def e_def mult.commute)
  also have "\<dots> \<le> S / s * (1 - u) - 10 * e"
    by (intro diff_right_mono mult_right_mono r_lo) (use u in simp)
  also have "\<dots> = (\<Sum>y\<leftarrow>ys. y / s * (1 - u) - e)"
    using sum_list_affine [of s "1 - u" "- e" ys] by (simp add: S_def len)
  also have "\<dots> \<le> (\<Sum>y\<leftarrow>ys. rnd (y / s))"
    unfolding u_def e_def by (intro sum_list_mono rounding_lower [OF eb] q)
  finally have lower: "1 - 1 / 100000 \<le> (\<Sum>y\<leftarrow>ys. rnd (y / s))" .
  show ?thesis using upper lower unfolding s_def by linarith
qed

section \<open>Properties of binary32 rounding\<close>

lemma round_half_even_error: "\<bar>of_int (round_half_even z) - z\<bar> \<le> 1 / 2"
proof -
  have "of_int \<lfloor>z\<rfloor> \<le> z" "z < of_int \<lfloor>z\<rfloor> + 1" by linarith+
  then show ?thesis by (auto simp: round_half_even_def Let_def)
qed

lemma round_half_even_range:
  "\<lfloor>z\<rfloor> \<le> round_half_even z" "round_half_even z \<le> \<lfloor>z\<rfloor> + 1"
  by (simp_all add: round_half_even_def Let_def)

lemma round_half_even_mono:
  assumes "z \<le> z'"
  shows "round_half_even z \<le> round_half_even z'"
proof (cases "\<lfloor>z\<rfloor> = \<lfloor>z'\<rfloor>")
  case True
  then show ?thesis using assms by (auto simp: round_half_even_def Let_def)
next
  case False
  then have "\<lfloor>z\<rfloor> + 1 \<le> \<lfloor>z'\<rfloor>" using floor_mono [OF assms] by simp
  then show ?thesis using round_half_even_range(2) [of z] round_half_even_range(1) [of z'] by simp
qed

lemma round_half_even_minus: "round_half_even (- z) = - round_half_even z"
proof (cases "z = of_int \<lfloor>z\<rfloor>")
  case True
  have 1: "round_half_even z = \<lfloor>z\<rfloor>" using True by (metis round_half_even_int)
  have "- z = of_int (- \<lfloor>z\<rfloor>)" using True by simp
  then have "round_half_even (- z) = - \<lfloor>z\<rfloor>" by (metis round_half_even_int)
  then show ?thesis using 1 by simp
next
  case False
  then have lt: "of_int \<lfloor>z\<rfloor> < z" "z < of_int \<lfloor>z\<rfloor> + 1" by linarith+
  have "of_int (- \<lfloor>z\<rfloor> - 1) \<le> - z" using lt(2) by linarith
  moreover have "- z < of_int (- \<lfloor>z\<rfloor> - 1) + 1" using lt(1) by linarith
  ultimately have f: "\<lfloor>- z\<rfloor> = - \<lfloor>z\<rfloor> - 1" by (rule floor_unique)
  show ?thesis using lt by (auto simp: round_half_even_def Let_def f)
qed

lemma binary32_exponent_minus [simp]: "binary32_exponent (- x) = binary32_exponent x"
  by (simp add: binary32_exponent_def)

lemma binary32_minus: "binary32 (- x) = - binary32 x"
  by (simp add: binary32_def round_half_even_minus)

text \<open>The binade of a non-zero number.\<close>

lemma binade:
  assumes "x \<noteq> 0"
  shows "2 powr of_int \<lfloor>log 2 \<bar>x\<bar>\<rfloor> \<le> \<bar>x\<bar>" "\<bar>x\<bar> < 2 powr (of_int \<lfloor>log 2 \<bar>x\<bar>\<rfloor> + 1)"
proof -
  have "0 < \<bar>x\<bar>" using assms by simp
  then have "\<bar>x\<bar> = 2 powr log 2 \<bar>x\<bar>" by simp
  moreover have "2 powr of_int \<lfloor>log 2 \<bar>x\<bar>\<rfloor> \<le> 2 powr log 2 \<bar>x\<bar>"
    by (intro powr_mono) simp_all
  moreover have "2 powr log 2 \<bar>x\<bar> < 2 powr (of_int \<lfloor>log 2 \<bar>x\<bar>\<rfloor> + 1)"
    by (intro powr_less_mono) simp_all
  ultimately show "2 powr of_int \<lfloor>log 2 \<bar>x\<bar>\<rfloor> \<le> \<bar>x\<bar>" "\<bar>x\<bar> < 2 powr (of_int \<lfloor>log 2 \<bar>x\<bar>\<rfloor> + 1)"
    by simp_all
qed

lemma binary32_error:
  "\<bar>binary32 x - x\<bar> \<le> \<bar>x\<bar> * unit_roundoff + underflow_unit"
proof (cases "x = 0")
  case True
  then show ?thesis by (simp add: binary32_def underflow_unit_def)
next
  case False
  define k where "k = \<lfloor>log 2 \<bar>x\<bar>\<rfloor>"
  define e where "e = binary32_exponent x"
  define q :: real where "q = 2 powr of_int e"
  have q: "0 < q" by (simp add: q_def)
  have "binary32 x - x = (of_int (round_half_even (x / q)) - x / q) * q"
    using False q by (simp add: binary32_def e_def q_def algebra_simps)
  then have "\<bar>binary32 x - x\<bar> = \<bar>of_int (round_half_even (x / q)) - x / q\<bar> * q"
    using q by (simp add: abs_mult)
  also have "\<dots> \<le> 1 / 2 * q" using q round_half_even_error by (intro mult_right_mono) simp_all
  finally have half: "\<bar>binary32 x - x\<bar> \<le> q / 2" by simp
  show ?thesis
  proof (cases "- 149 \<le> k - 23")
    case True
    then have "e = k - 23" by (simp add: e_def binary32_exponent_def k_def)
    then have "q = 2 powr of_int k / 2 ^ 23" by (simp add: q_def powr_diff)
    also have "\<dots> \<le> \<bar>x\<bar> / 2 ^ 23" using binade(1) [OF False] by (simp add: k_def divide_right_mono)
    finally have "q / 2 \<le> \<bar>x\<bar> * unit_roundoff" by (simp add: unit_roundoff_def)
    then show ?thesis using half by (simp add: underflow_unit_def)
  next
    case False
    then have "e = - 149" by (simp add: e_def binary32_exponent_def k_def)
    then have "q = 1 / 2 ^ 149" by (simp add: q_def powr_minus_divide powr_realpow [symmetric])
    then have "q / 2 = underflow_unit" by (simp add: underflow_unit_def)
    moreover have "0 \<le> \<bar>x\<bar> * unit_roundoff" by (simp add: unit_roundoff_def)
    ultimately show ?thesis using half by linarith
  qed
qed

lemma binary32_unfold:
  "x \<noteq> 0 \<Longrightarrow>
     binary32 x = of_int (round_half_even (x / 2 powr of_int (binary32_exponent x)))
                    * 2 powr of_int (binary32_exponent x)"
  by (simp add: binary32_def)

lemma binary32_le_multiple:
  assumes "x \<noteq> 0" and "x \<le> of_int M * 2 powr of_int (binary32_exponent x)"
  shows "binary32 x \<le> of_int M * 2 powr of_int (binary32_exponent x)"
proof -
  define q :: real where "q = 2 powr of_int (binary32_exponent x)"
  have q: "0 < q" by (simp add: q_def)
  have "x / q \<le> of_int M" using assms(2) q by (simp add: q_def pos_divide_le_eq)
  then have "round_half_even (x / q) \<le> round_half_even (of_int M)" by (rule round_half_even_mono)
  then have "(of_int (round_half_even (x / q)) :: real) \<le> of_int M" by simp
  then have "of_int (round_half_even (x / q)) * q \<le> of_int M * q"
    using q by (intro mult_right_mono) simp_all
  then show ?thesis by (simp add: binary32_unfold [OF assms(1)] q_def)
qed

lemma binary32_ge_multiple:
  assumes "x \<noteq> 0" and "of_int M * 2 powr of_int (binary32_exponent x) \<le> x"
  shows "of_int M * 2 powr of_int (binary32_exponent x) \<le> binary32 x"
proof -
  define q :: real where "q = 2 powr of_int (binary32_exponent x)"
  have q: "0 < q" by (simp add: q_def)
  have "of_int M \<le> x / q" using assms(2) q by (simp add: q_def pos_le_divide_eq)
  then have "round_half_even (of_int M) \<le> round_half_even (x / q)" by (rule round_half_even_mono)
  then have "(of_int M :: real) \<le> of_int (round_half_even (x / q))" by simp
  then have "of_int M * q \<le> of_int (round_half_even (x / q)) * q"
    using q by (intro mult_right_mono) simp_all
  then show ?thesis by (simp add: binary32_unfold [OF assms(1)] q_def)
qed

lemma binary32_nonneg: "0 \<le> x \<Longrightarrow> 0 \<le> binary32 x"
  using binary32_ge_multiple [of x 0] by (cases "x = 0") (simp_all add: binary32_def)

lemma power_as_multiple:
  assumes "e \<le> j"
  shows "2 powr of_int j = (of_int (2 ^ nat (j - e)) :: real) * 2 powr of_int e"
proof -
  have "(2::real) powr of_int j = 2 powr of_int (j - e) * 2 powr of_int e"
    by (simp add: powr_add [symmetric])
  also have "(2::real) powr of_int (j - e) = 2 ^ nat (j - e)"
    using assms powr_int [of "2::real" "j - e"] by simp
  finally show ?thesis by simp
qed

lemma binary32_mono_pos:
  assumes "0 < x" and "x \<le> y"
  shows "binary32 x \<le> binary32 y"
proof -
  define kx ky where "kx = \<lfloor>log 2 \<bar>x\<bar>\<rfloor>" and "ky = \<lfloor>log 2 \<bar>y\<bar>\<rfloor>"
  define ex ey where "ex = binary32_exponent x" and "ey = binary32_exponent y"
  have x0: "x \<noteq> 0" and y0: "y \<noteq> 0" and ypos: "0 < y" using assms by simp_all
  have "log 2 \<bar>x\<bar> \<le> log 2 \<bar>y\<bar>" using assms by simp
  then have k: "kx \<le> ky" unfolding kx_def ky_def by (rule floor_mono)
  have ex: "ex = max (kx - 23) (- 149)" and ey: "ey = max (ky - 23) (- 149)"
    by (simp_all add: ex_def ey_def kx_def ky_def binary32_exponent_def)
  have e: "ex \<le> ey" using k by (simp add: ex ey)
  show ?thesis
  proof (cases "ex = ey")
    case True
    define q :: real where "q = 2 powr of_int ex"
    have q: "0 < q" by (simp add: q_def)
    have "x / q \<le> y / q" using assms(2) q by (simp add: divide_right_mono)
    then have "round_half_even (x / q) \<le> round_half_even (y / q)" by (rule round_half_even_mono)
    then have "(of_int (round_half_even (x / q)) :: real) * q \<le> of_int (round_half_even (y / q)) * q"
      using q by (intro mult_right_mono) simp_all
    then show ?thesis
      using True by (simp add: binary32_unfold [OF x0] binary32_unfold [OF y0] q_def ex_def ey_def)
  next
    case False
    then have lt: "ex < ey" using e by simp
    then have eyk: "ey = ky - 23" and kk: "kx + 1 \<le> ky" and exk: "ex \<le> ky"
      by (simp_all add: ex ey max_def split: if_splits)
    define b :: real where "b = 2 powr of_int ky"
    have "\<bar>x\<bar> < 2 powr (of_int kx + 1)" unfolding kx_def by (rule binade(2) [OF x0])
    also have "\<dots> \<le> b" unfolding b_def using kk by (intro powr_mono) (simp, linarith)
    finally have xb: "x \<le> b" using assms(1) by simp
    have "b \<le> \<bar>y\<bar>" unfolding b_def ky_def by (rule binade(1) [OF y0])
    then have yb: "b \<le> y" using ypos by simp
    have bx: "b = of_int (2 ^ nat (ky - ex)) * 2 powr of_int (binary32_exponent x)"
      unfolding b_def ex_def [symmetric] by (rule power_as_multiple [OF exk])
    have "ey \<le> ky" using eyk by simp
    then have "b = of_int (2 ^ nat (ky - ey)) * 2 powr of_int ey"
      unfolding b_def by (rule power_as_multiple)
    then have by': "b = of_int (2 ^ nat (ky - ey)) * 2 powr of_int (binary32_exponent y)"
      by (simp add: ey_def)
    have "binary32 x \<le> b"
      using binary32_le_multiple [OF x0, of "2 ^ nat (ky - ex)"] xb bx by simp
    moreover have "b \<le> binary32 y"
      using binary32_ge_multiple [OF y0, of "2 ^ nat (ky - ey)"] yb by' by simp
    ultimately show ?thesis by simp
  qed
qed

lemma binary32_mono:
  assumes "x \<le> y"
  shows "binary32 x \<le> binary32 y"
proof -
  consider "0 < x" | "x \<le> 0" "0 \<le> y" | "y < 0" by linarith
  then show ?thesis
  proof cases
    case 1
    then show ?thesis using assms by (rule binary32_mono_pos)
  next
    case 2
    have "0 \<le> binary32 (- x)" using 2(1) by (intro binary32_nonneg) simp
    then have "binary32 x \<le> 0" by (simp add: binary32_minus)
    moreover have "0 \<le> binary32 y" using 2(2) by (rule binary32_nonneg)
    ultimately show ?thesis by simp
  next
    case 3
    have "binary32 (- y) \<le> binary32 (- x)" using 3 assms by (intro binary32_mono_pos) simp_all
    then show ?thesis by (simp add: binary32_minus)
  qed
qed

lemma binary32_exact:
  assumes "x \<noteq> 0" and "x / 2 powr of_int (binary32_exponent x) = of_int M"
  shows "binary32 x = x"
proof -
  have "binary32 x = of_int M * 2 powr of_int (binary32_exponent x)"
    by (simp only: binary32_unfold [OF assms(1)] assms(2) round_half_even_int)
  also have "\<dots> = x" using assms(2) by (simp add: field_simps)
  finally show ?thesis .
qed

lemma binary32_of_int:
  assumes "\<bar>n\<bar> \<le> 16777216"
  shows "binary32 (of_int n) = of_int n"
proof (cases "n = 0")
  case True
  then show ?thesis by (simp add: binary32_def)
next
  case False
  define x :: real where "x = of_int n"
  define k where "k = \<lfloor>log 2 \<bar>x\<bar>\<rfloor>"
  have x0: "x \<noteq> 0" using False by (simp add: x_def)
  have x1: "1 \<le> \<bar>x\<bar>" "\<bar>x\<bar> \<le> 2 ^ 24"
    using False assms unfolding x_def by (simp_all flip: of_int_abs)
  have "0 \<le> log 2 \<bar>x\<bar>" using x1(1) by simp
  then have k0: "0 \<le> k" by (simp add: k_def)
  have l24: "log 2 ((2::real) ^ 24) = 24" by (subst log_nat_power) simp_all
  have "log 2 \<bar>x\<bar> \<le> log 2 (2 ^ 24)" using x1 by (intro log_mono) simp_all
  then have "log 2 \<bar>x\<bar> \<le> 24" by (simp only: l24)
  then have k24: "k \<le> 24" unfolding k_def by (simp add: floor_le_iff)
  have e: "binary32_exponent x = k - 23" using k0 by (simp add: binary32_exponent_def k_def)
  have "\<exists>M. x / 2 powr of_int (binary32_exponent x) = of_int M"
  proof (cases "k \<le> 23")
    case True
    have "x / 2 powr of_int (k - 23) = x * 2 powr of_int (23 - k)"
      by (simp add: powr_diff field_simps)
    also have "\<dots> = x * 2 ^ nat (23 - k)"
      using True powr_int [of "2::real" "23 - k"] by simp
    also have "\<dots> = of_int (n * 2 ^ nat (23 - k))" by (simp add: x_def)
    finally show ?thesis unfolding e by blast
  next
    case False
    then have k: "k = 24" using k24 by simp
    have "2 powr of_int k \<le> \<bar>x\<bar>" unfolding k_def by (rule binade(1) [OF x0])
    then have "\<bar>x\<bar> = 2 ^ 24" using x1(2) by (simp add: k powr_int)
    then have "\<bar>n\<bar> = 2 ^ 24" unfolding x_def by (simp flip: of_int_abs)
    then have "n = 16777216 \<or> n = - 16777216" by auto
    then have "x / 2 powr of_int (k - 23) = of_int (n div 2)"
      by (auto simp: x_def k)
    then show ?thesis unfolding e by blast
  qed
  then show ?thesis using binary32_exact [OF x0] by (auto simp: x_def)
qed

lemma binary32_arithmetic:
  "monotone_rounding binary32" "exact_on_integers binary32" "rounding_error_bounded binary32"
  "plausible_exp expf"
proof -
  show "monotone_rounding binary32" by (simp add: monotone_rounding_def binary32_mono)
  show "exact_on_integers binary32" by (simp add: exact_on_integers_def binary32_of_int)
  show "rounding_error_bounded binary32" by (simp add: rounding_error_bounded_def binary32_error)
  show "plausible_exp expf"
    by (simp add: plausible_exp_def expf_def binary32_mono binary32_nonneg binary32_1)
qed

section \<open>A shift of the logits that binary32 rounds\<close>

lemma binary32_exponent_2_25:
  assumes "33554432 \<le> x" "x < 67108864"
  shows "binary32_exponent x = 2"
proof -
  have "\<lfloor>log 2 x\<rfloor> = 25"
    by (rule floor_log2) (use assms in simp_all)
  then show ?thesis using assms by (simp add: binary32_exponent_def)
qed

lemma binary32_2_25: "binary32 33554432 = 33554432"
proof (rule binary32_exact)
  show "(33554432::real) \<noteq> 0" by simp
  have "binary32_exponent 33554432 = 2" by (rule binary32_exponent_2_25) simp_all
  then show "(33554432::real) / 2 powr of_int (binary32_exponent 33554432) = of_int 8388608" by simp
qed

lemma binary32_2_25_plus_1: "binary32 33554433 = 33554432"
proof -
  have e: "binary32_exponent 33554433 = 2" by (rule binary32_exponent_2_25) simp_all
  define z :: real where "z = 33554433 / 4"
  have f: "\<lfloor>z\<rfloor> = 8388608" unfolding z_def by (intro floor_unique) simp_all
  have "round_half_even z = 8388608"
    by (simp add: round_half_even_def f Let_def) (simp add: z_def)
  moreover have "(2::real) powr of_int 2 = 4" by simp
  ultimately show ?thesis unfolding binary32_def e z_def by simp
qed

lemma binary32_half: "binary32 (1 / 2) = 1 / 2"
proof (rule binary32_exact)
  show "(1 / 2 :: real) \<noteq> 0" by simp
  have "\<lfloor>log 2 (1 / 2 :: real)\<rfloor> = - 1"
    by (rule floor_log2) (simp_all add: powr_minus_divide)
  then have e: "binary32_exponent (1 / 2) = - 24" by (simp add: binary32_exponent_def)
  have p: "2 powr of_int (- 24) = (1 / 2 ^ 24 :: real)"
    by (simp add: powr_minus_divide powr_realpow [symmetric])
  show "(1 / 2 :: real) / 2 powr of_int (binary32_exponent (1 / 2)) = of_int 8388608"
    unfolding e p by simp
qed

lemma expf_minus_1: "0 \<le> expf (- 1)" "expf (- 1) \<le> 1 / 2"
proof -
  show "0 \<le> expf (- 1)" unfolding expf_def by (rule binary32_nonneg) simp
  have "1 + 1 \<le> exp (1::real)" by (rule exp_ge_add_one_self)
  then have "exp (- 1 :: real) \<le> 1 / 2" by (simp add: exp_minus field_simps)
  then have "binary32 (exp (- 1)) \<le> binary32 (1 / 2)" by (rule binary32_mono)
  then show "expf (- 1) \<le> 1 / 2" by (simp add: expf_def binary32_half)
qed

lemma set_shift_logits: "set shift_logits = {0, 1}"
  by (auto simp: shift_logits_def)

lemma shifted_by_2_25:
  "map (\<lambda>l. fadd binary32 l 33554432) shift_logits = replicate 10 33554432"
  by (simp add: shift_logits_def fadd_def binary32_2_25 binary32_2_25_plus_1 eval_nat_numeral)

lemma binary32_minus_1: "binary32 (- 1) = - 1"
  by (simp add: binary32_minus binary32_1)

lemma shift_logits_exponentials:
  "map (\<lambda>l. expf (fsub binary32 l 1)) shift_logits
     = [expf (- 1), 1, expf (- 1), expf (- 1), expf (- 1), expf (- 1), expf (- 1), expf (- 1),
        expf (- 1), expf (- 1)]"
proof -
  have "binary32 0 = 0" by (simp add: binary32_def)
  then show ?thesis by (simp add: shift_logits_def fsub_def binary32_minus_1 expf_0)
qed

lemma shift_logits_sum_range:
  "1 \<le> float_sum binary32 (map (\<lambda>l. expf (fsub binary32 l 1)) shift_logits)"
  "float_sum binary32 (map (\<lambda>l. expf (fsub binary32 l 1)) shift_logits) \<le> 11"
proof -
  define e where "e = expf (- 1)"
  define ys where "ys = [e, 1, e, e, e, e, e, e, e, e]"
  have ys: "map (\<lambda>l. expf (fsub binary32 l 1)) shift_logits = ys"
    by (simp add: shift_logits_exponentials ys_def e_def)
  have e: "0 \<le> e" "e \<le> 1 / 2" using expf_minus_1 by (simp_all add: e_def)
  have nonneg: "\<forall>y \<in> set ys. 0 \<le> y" using e by (simp add: ys_def)
  have one: "1 \<in> set ys" by (simp add: ys_def)
  show "1 \<le> float_sum binary32 (map (\<lambda>l. expf (fsub binary32 l 1)) shift_logits)"
    unfolding ys float_sum_def
    using foldl_fadd_reaches_one [OF binary32_arithmetic(1,2) nonneg one] by simp
  have S: "sum_list ys \<le> 11 / 2" using e by (simp add: ys_def)
  define A where "A = (1 + unit_roundoff) ^ 10"
  have A: "0 \<le> A" by (simp add: A_def unit_roundoff_def)
  have len: "length ys = 10" by (simp add: ys_def)
  have "float_sum binary32 ys \<le> A * sum_list ys + 10 * A * underflow_unit"
    using foldl_fadd_upper [OF binary32_arithmetic(3,1,2) nonneg, of 0]
    by (simp add: float_sum_def A_def len)
  also have "\<dots> \<le> A * (11 / 2) + 10 * A * underflow_unit"
    by (intro add_right_mono mult_left_mono S A)
  also have "\<dots> \<le> 11"
    by (simp add: A_def unit_roundoff_def underflow_unit_def power_divide)
  finally show "float_sum binary32 (map (\<lambda>l. expf (fsub binary32 l 1)) shift_logits) \<le> 11"
    by (simp add: ys)
qed

lemma shift_logits_softmax_strict:
  "softmax_formula binary32 expf shift_logits ! 0 < softmax_formula binary32 expf shift_logits ! 1"
proof -
  define e where "e = expf (- 1)"
  define s where "s = float_sum binary32 (map (\<lambda>l. expf (fsub binary32 l 1)) shift_logits)"
  define t where "t = 1 / s"
  have mx: "Max (set shift_logits) = 1" by (simp add: set_shift_logits)
  have e: "0 \<le> e" "e \<le> 1 / 2" using expf_minus_1 by (simp_all add: e_def)
  have s: "1 \<le> s" "s \<le> 11" using shift_logits_sum_range by (simp_all add: s_def)
  have t: "1 / 11 \<le> t" "0 \<le> t" using s by (simp_all add: t_def field_simps)
  have "binary32 0 = 0" by (simp add: binary32_def)
  then have p0: "softmax_formula binary32 expf shift_logits ! 0 = binary32 (e * t)"
    and p1: "softmax_formula binary32 expf shift_logits ! 1 = binary32 t"
    by (simp_all add: softmax_formula_nth mx shift_logits_def fdiv_def fsub_def
        binary32_minus_1 expf_0 e_def t_def s_def)
  have et: "0 \<le> e * t" "e * t \<le> t / 2"
    using e t(2) mult_right_mono [of e "1 / 2" t] by simp_all
  have "binary32 (e * t) \<le> e * t * (1 + unit_roundoff) + underflow_unit"
    by (rule rounding_upper [OF binary32_arithmetic(3) et(1)])
  also have "\<dots> \<le> t / 2 * (1 + unit_roundoff) + underflow_unit"
    by (intro add_right_mono mult_right_mono et(2)) (simp add: unit_roundoff_def)
  also have "\<dots> < t * (1 - unit_roundoff) - underflow_unit"
    using t(1) by (simp add: unit_roundoff_def underflow_unit_def algebra_simps)
  also have "\<dots> \<le> binary32 t"
    by (rule rounding_lower [OF binary32_arithmetic(3) t(2)])
  finally show ?thesis unfolding p0 p1 .
qed

lemma softmax_formula_constant_input:
  assumes "i < n" "j < n"
  shows "softmax_formula rnd fexp (replicate n c) ! i = softmax_formula rnd fexp (replicate n c) ! j"
  using assms by (simp add: softmax_formula_nth)

section \<open>The claims\<close>

subsection \<open>C1\<close>

text \<open>
  Claim C1, as amended. For a capture with \<open>W \<ge> 1\<close>, \<open>H \<ge> 1\<close> and a buffer of \<open>W * H * 4\<close>
  bytes whose index arithmetic stays within the 32-bit \<^verbatim>\<open>int\<close> (\<open>index_fits\<close>),
  \<open>convertImage\<close> returns normally and leaves in every target cell \<open>(r, c)\<close> the value
  \<open>(255 - L) / 255\<close>, computed in the machine's arithmetic, where \<open>L\<close> is the average of
  the three colour channels of the source pixel at \<open>srcY = r * H div 28\<close>,
  \<open>srcX = c * W div 28\<close>.
\<close>

theorem convertImage_cell_value:
  assumes "1 \<le> W" and "1 \<le> H" and "length px = nat (W * H * 4)" and "index_fits W H"
    and "length (input_image m) = 784" and "r < 28" and "c < 28"
  shows "\<exists>m'. convertImage rnd px W H m = Inr m' \<and>
           input_image m' ! (r * 28 + c) =
             fdiv rnd (fsub rnd 255 (luminance rnd px W H (int r) (int c))) 255"
proof -
  have "converted_image rnd px W H (map (\<lambda>_. 0) (input_image m)) ! (r * 28 + c)
      = cell_value rnd px W H (int r) (int c)"
    by (rule converted_image_nth) (use assms in simp_all)
  then show ?thesis
    using convertImage_ok [OF assms(1,2,4,3,5), of rnd] by (simp add: cell_value_def)
qed

theorem convertImage_cell_value_witness:
  "\<exists>m'. convertImage (\<lambda>x. x) four_pixels 2 2 loaded_model = Inr m' \<and>
      input_image m' ! (27 * 28 + 27) = 47 / 51"
  using convertImage_cell_value [of 2 2 four_pixels loaded_model 27 27 "\<lambda>x. x"]
  by (simp add: index_fits_def INT_MAX_def loaded_model_def four_pixels_def luminance_def
      source_offset_def fdiv_def fsub_def float_of_int_def)

text \<open>
  Without the bound the claim fails: for a capture of width 79536432 and height 1 the
  product \<^verbatim>\<open>col * bigWidth\<close> of the cell in row 0, column 27 is 2147483664, which exceeds
  \<open>INT_MAX\<close>; the call has undefined behaviour and no image is produced.
\<close>

theorem convertImage_cell_value_counterexample:
  "1 \<le> (79536432::int) \<and> 1 \<le> (1::int) \<and>
   length (replicate 318145728 (0::8 word)) = nat (79536432 * 1 * 4) \<and>
   source_index 79536432 1 0 27 = Inl SignedOverflow \<and>
   isl (convertImage (\<lambda>x. x) (replicate 318145728 0) 79536432 1 loaded_model)"
proof -
  have s: "source_index 79536432 1 0 27 = Inl SignedOverflow"
    by (simp add: source_index_def imul_def idiv_def in_int_def INT_MAX_def INT_MIN_def
        MNIST_HEIGHT_def MNIST_WIDTH_def)
  have "isl (convertImage (\<lambda>x. x) (replicate 318145728 0) 79536432 1 loaded_model)"
    by (rule convertImage_fault [OF s]) simp_all
  then show ?thesis using s by simp
qed

subsection \<open>C2\<close>

text \<open>
  Claim C2, as amended. Under the same conditions, and for a rounding that is monotone
  and exact on the integers up to \<open>2 ^ 24\<close>, \<open>convertImage\<close> returns normally with exactly
  784 values in the image, each in the closed interval from 0 to 1.
\<close>

theorem convertImage_shape_and_range:
  assumes "1 \<le> W" and "1 \<le> H" and "length px = nat (W * H * 4)" and "index_fits W H"
    and "length (input_image m) = 784"
    and "monotone_rounding rnd" and "exact_on_integers rnd"
  shows "\<exists>m'. convertImage rnd px W H m = Inr m' \<and> length (input_image m') = 784 \<and>
           (\<forall>v \<in> set (input_image m'). 0 \<le> v \<and> v \<le> 1)"
proof -
  let ?img = "converted_image rnd px W H (map (\<lambda>_. 0) (input_image m))"
  have "length ?img = 784" using assms(5) by simp
  moreover have "\<forall>v \<in> set ?img. 0 \<le> v \<and> v \<le> 1"
    using converted_image_range [OF assms(6,7), of "map (\<lambda>_. 0) (input_image m)" _ px W H] assms(5)
    by simp
  ultimately show ?thesis
    using convertImage_ok [OF assms(1,2,4,3,5), of rnd] by simp
qed

theorem convertImage_shape_and_range_witness:
  "\<exists>m'. convertImage binary32 four_pixels 2 2 loaded_model = Inr m' \<and>
      length (input_image m') = 784 \<and> 0 \<le> input_image m' ! 0 \<and> input_image m' ! 0 \<le> 1"
proof -
  have "\<exists>m'. convertImage binary32 four_pixels 2 2 loaded_model = Inr m' \<and> length (input_image m') = 784 \<and>
           (\<forall>v \<in> set (input_image m'). 0 \<le> v \<and> v \<le> 1)"
    by (rule convertImage_shape_and_range [OF _ _ _ _ _ binary32_arithmetic(1,2)])
      (simp_all add: index_fits_def INT_MAX_def loaded_model_def four_pixels_def)
  then obtain m' where m': "convertImage binary32 four_pixels 2 2 loaded_model = Inr m'"
    "length (input_image m') = 784" "\<forall>v \<in> set (input_image m'). 0 \<le> v \<and> v \<le> 1"
    by blast
  have "input_image m' ! 0 \<in> set (input_image m')" using m'(2) by (intro nth_mem) simp
  then show ?thesis using m' by blast
qed

text \<open>
  Without the bound the claim fails: for a capture of 24000 by 24000 pixels the byte index
  of the cell in row 27, column 0 is \<open>555408000 * 4\<close>, which exceeds \<open>INT_MAX\<close>.
\<close>

theorem convertImage_shape_and_range_counterexample:
  "1 \<le> (24000::int) \<and>
   length (replicate 2304000000 (0::8 word)) = nat (24000 * 24000 * 4) \<and>
   source_index 24000 24000 27 0 = Inl SignedOverflow \<and>
   isl (convertImage (\<lambda>x. x) (replicate 2304000000 0) 24000 24000 loaded_model)"
proof -
  have s: "source_index 24000 24000 27 0 = Inl SignedOverflow"
    by (simp add: source_index_def imul_def idiv_def iadd_def in_int_def INT_MAX_def INT_MIN_def
        MNIST_HEIGHT_def MNIST_WIDTH_def signed_divide_int_def)
  have "isl (convertImage (\<lambda>x. x) (replicate 2304000000 0) 24000 24000 loaded_model)"
    by (rule convertImage_fault [OF s]) simp_all
  then show ?thesis using s by simp
qed

subsection \<open>C3\<close>

text \<open>
  Claim C3. Applied to the ten logits that the engine leaves in \<^verbatim>\<open>results_\<close>, \<open>softmax\<close>
  returns the max-subtraction formula \<open>p\<^sub>i = exp (l\<^sub>i - max) / (\<Sum>\<^sub>j exp (l\<^sub>j - max))\<close>: the
  maximum is taken once, from the logits as given, and every exponential and the sum
  use that one value. \<open>softmax_formula\<close> is the formula in the machine's arithmetic (sum
  accumulated from left to right); in exact arithmetic it is the reference definition.
\<close>

theorem softmax_is_reference:
  assumes "session_Run (session m) (input_image m) = Inr logits" and "length logits = 10"
  shows "softmax rnd fexp logits = Inr (softmax_formula rnd fexp logits) \<and>
         (\<exists>k. Run rnd fexp session_Run m = Inr (k, m\<lparr>results := softmax_formula rnd fexp logits\<rparr>)) \<and>
         softmax_formula (\<lambda>x. x) exp logits = softmax_reference logits"
proof -
  have ne: "logits \<noteq> []" using assms(2) by auto
  show ?thesis
    using softmax_eq_formula [OF ne] Run_ok [where session_Run = session_Run and m = m, OF assms(1) ne] softmax_formula_exact by simp
qed

theorem softmax_is_reference_witness:
  "softmax (\<lambda>x. x) exp [0, ln 3, 0, 0, 0, 0, 0, 0, 0, 0]
     = Inr [1 / 12, 1 / 4, 1 / 12, 1 / 12, 1 / 12, 1 / 12, 1 / 12, 1 / 12, 1 / 12, 1 / 12]"
proof -
  let ?l = "[0, ln 3, 0, 0, 0, 0, 0, 0, 0, 0] :: real list"
  have "set ?l = {0, ln 3}" by auto
  then have m: "Max (set ?l) = ln 3" by (simp add: max_def)
  have e: "exp (0 - ln (3::real)) = 1 / 3" "exp (ln 3 - ln (3::real)) = 1"
    by (simp_all add: exp_minus inverse_eq_divide)
  have ref: "softmax_reference ?l = [1 / 12, 1 / 4, 1 / 12, 1 / 12, 1 / 12, 1 / 12, 1 / 12, 1 / 12, 1 / 12, 1 / 12]"
    unfolding softmax_reference_def m by (simp only: list.map e sum_list.Cons sum_list.Nil) simp
  have run: "(\<lambda>(s::OrtSession) (img::real list). Inr ?l :: string + real list) (session loaded_model) (input_image loaded_model) = Inr ?l"
    by simp
  have "length ?l = 10" by simp
  from softmax_is_reference [where session_Run = "\<lambda>s img. Inr ?l" and m = loaded_model and rnd = "\<lambda>x. x" and fexp = exp, OF run this]
  have "softmax (\<lambda>x. x) exp ?l = Inr (softmax_reference ?l)" by simp
  then show ?thesis by (simp only: ref)
qed

subsection \<open>C4\<close>

text \<open>
  Claim C4. For ten logits, and an arithmetic with a monotone rounding that is exact on
  small integers and has the error bound of binary32, and a non-negative monotone
  exponential with \<open>fexp 0 = 1\<close>, every probability that \<open>softmax\<close> returns is at least 0
  and their (exact) sum differs from 1 by at most \<open>10 ^ -5\<close>.
\<close>

theorem softmax_probabilities:
  assumes "length logits = 10"
    and "monotone_rounding rnd" and "exact_on_integers rnd" and "rounding_error_bounded rnd"
    and "plausible_exp fexp"
  shows "\<exists>ps. softmax rnd fexp logits = Inr ps \<and> length ps = 10 \<and>
           (\<forall>p \<in> set ps. 0 \<le> p) \<and> \<bar>sum_list ps - 1\<bar> \<le> 1 / 100000"
proof -
  have ne: "logits \<noteq> []" using assms(1) by auto
  define mx where "mx = Max (set logits)"
  define ys where "ys = map (\<lambda>l. fexp (fsub rnd l mx)) logits"
  define s where "s = float_sum rnd ys"
  have ps: "softmax_formula rnd fexp logits = map (\<lambda>y. rnd (y / s)) ys"
    unfolding s_def ys_def mx_def by (rule softmax_formula_as_quotients)
  have nonneg: "\<forall>y \<in> set ys. 0 \<le> y"
    using assms(5) by (auto simp: ys_def plausible_exp_def)
  have "mx \<in> set logits" unfolding mx_def using ne by (intro Max_in) simp_all
  moreover have "fexp (fsub rnd mx mx) = 1"
    using assms(5) by (simp add: fsub_def rounding_one [OF assms(3)] plausible_exp_def)
  ultimately have one: "1 \<in> set ys" unfolding ys_def by force
  have len: "length ys = 10" by (simp add: ys_def assms(1))
  have s0: "0 \<le> s" unfolding s_def by (rule float_sum_nonneg [OF assms(2,3) nonneg])
  have "\<forall>p \<in> set (map (\<lambda>y. rnd (y / s)) ys). 0 \<le> p"
    using nonneg s0 by (auto intro!: rounding_nonneg [OF assms(2,3)])
  moreover have "\<bar>sum_list (map (\<lambda>y. rnd (y / s)) ys) - 1\<bar> \<le> 1 / 100000"
    unfolding s_def by (rule quotient_sum_bounds [OF assms(4,2,3) nonneg one len])
  ultimately show ?thesis
    using softmax_eq_formula [OF ne, of rnd fexp] len by (simp add: ps)
qed

theorem softmax_probabilities_witness:
  "\<exists>ps. softmax binary32 expf tiny_logits = Inr ps \<and> length ps = 10 \<and>
      0 \<le> ps ! 1 \<and> \<bar>sum_list ps - 1\<bar> \<le> 1 / 100000"
proof -
  have "length tiny_logits = 10" by (simp add: tiny_logits_def)
  from softmax_probabilities [OF this binary32_arithmetic]
  obtain ps where ps: "softmax binary32 expf tiny_logits = Inr ps" "length ps = 10"
    "\<forall>p \<in> set ps. 0 \<le> p" "\<bar>sum_list ps - 1\<bar> \<le> 1 / 100000"
    by blast
  have "ps ! 1 \<in> set ps" using ps(2) by (intro nth_mem) simp
  then show ?thesis using ps by blast
qed

subsection \<open>C5\<close>

text \<open>
  Claim C5. The class \<open>Run\<close> returns is an index of the greatest probability, every
  earlier probability is strictly smaller (ties go to the lowest index), and when all
  ten logits are equal, as for ten zeros, the class is 0.
\<close>

theorem Run_first_greatest:
  assumes "session_Run (session m) (input_image m) = Inr logits" and "length logits = 10"
  shows "\<exists>k ps. Run rnd fexp session_Run m = Inr (int k, m\<lparr>results := ps\<rparr>) \<and>
           length ps = 10 \<and> k < 10 \<and> ps ! k = Max (set ps) \<and> (\<forall>j<k. ps ! j < ps ! k) \<and>
           ((\<forall>i<10. logits ! i = logits ! 0) \<longrightarrow> k = 0)"
proof -
  have ne: "logits \<noteq> []" using assms(2) by auto
  define ps where "ps = softmax_formula rnd fexp logits"
  define k where "k = max_element ps"
  have len: "length ps = 10" by (simp add: ps_def assms(2))
  then have pne: "ps \<noteq> []" by auto
  note fg = max_element_first_greatest [OF pne, folded k_def]
  have eqs: "k = 0" if "\<forall>i<10. logits ! i = logits ! 0"
  proof (rule ccontr)
    assume "k \<noteq> 0"
    then have "0 < k" by simp
    then have "ps ! 0 < ps ! k" by (rule fg(3))
    moreover have "ps ! k = ps ! 0"
    proof -
      have "k < 10" using fg(1) len by simp
      then have "logits ! k = logits ! 0" using that by blast
      then show ?thesis
        using \<open>k < 10\<close> unfolding ps_def by (simp add: softmax_formula_nth assms(2))
    qed
    ultimately show False by simp
  qed
  have "Run rnd fexp session_Run m = Inr (int k, m\<lparr>results := ps\<rparr>)"
    unfolding k_def ps_def by (rule Run_ok [where session_Run = session_Run and m = m, OF assms(1) ne])
  moreover have "ps ! k = Max (set ps)" unfolding k_def by (rule max_element_Max [OF pne])
  moreover have "k < 10" using fg(1) len by simp
  moreover have "\<forall>j<k. ps ! j < ps ! k" using fg(3) by blast
  moreover have "(\<forall>i<10. logits ! i = logits ! 0) \<longrightarrow> k = 0" using eqs by blast
  ultimately show ?thesis using len by blast
qed

theorem Run_first_greatest_witness:
  "Run (\<lambda>x. x) exp (\<lambda>s img. Inr [0, 0, 0, 0, 0, 0, 0, 0, 0, 0]) loaded_model 
     = Inr (0, loaded_model\<lparr>results := [1/10, 1/10, 1/10, 1/10, 1/10, 1/10, 1/10, 1/10, 1/10, 1/10]\<rparr>)"
proof -
  let ?z = "[0, 0, 0, 0, 0, 0, 0, 0, 0, 0] :: real list"
  have run: "(\<lambda>(s::OrtSession) (img::real list). Inr ?z :: string + real list) (session loaded_model) (input_image loaded_model) = Inr ?z"
    by simp
  have len: "length ?z = 10" by simp
  from Run_first_greatest [where session_Run = "\<lambda>s img. Inr ?z" and m = loaded_model and rnd = "\<lambda>x. x" and fexp = exp, OF run len]
  obtain k ps where r: "Run (\<lambda>x. x) exp (\<lambda>s img. Inr ?z) loaded_model = Inr (int k, loaded_model\<lparr>results := ps\<rparr>)"
    and k: "(\<forall>i<10. ?z ! i = ?z ! 0) \<longrightarrow> k = 0"
    by blast
  have "\<forall>i<10. ?z ! i = ?z ! 0" by (simp add: nth_Cons')
  then have k0: "k = 0" using k by simp
  have "set ?z = {0}" by auto
  then have "softmax_reference ?z = [1/10, 1/10, 1/10, 1/10, 1/10, 1/10, 1/10, 1/10, 1/10, 1/10]"
    unfolding softmax_reference_def by simp
  then have "Run (\<lambda>x. x) exp (\<lambda>s img. Inr ?z) loaded_model
      = Inr (int (max_element (softmax_reference ?z)),
             loaded_model\<lparr>results := [1/10, 1/10, 1/10, 1/10, 1/10, 1/10, 1/10, 1/10, 1/10, 1/10]\<rparr>)"
    using Run_ok [where session_Run = "\<lambda>s img. Inr ?z" and m = loaded_model and rnd = "\<lambda>x. x" and fexp = exp, OF run]
    by (simp add: softmax_formula_exact)
  then show ?thesis using r k0 by simp
qed

subsection \<open>C6\<close>

text \<open>
  Claim C6 does not hold of the code. When the engine throws during \<^verbatim>\<open>session_.Run\<close>, the
  exception leaves \<open>Run\<close> and then \<^verbatim>\<open>main\<close>, whose only handler encloses the construction
  of the model: the release of the left button ends the process instead of yielding no
  prediction. The theorem evaluates the handler for the 280 by 224 canvas of \<^verbatim>\<open>main\<close>.
\<close>

theorem Run_exception_terminates_process:
  assumes "length pixels = nat (width * height * 4)" and "length (input_image m) = 784"
    and "\<forall>s img. session_Run s img = Inl msg"
  shows "on_left_button_up rnd fexp session_Run pixels m = Terminated (OrtException msg)"
  using assms(3)
  by (simp add: on_left_button_up_def convertImage_canvas [OF assms(1,2)] Run_def)

theorem Run_exception_terminates_process_witness:
  "on_left_button_up (\<lambda>x. x) exp (\<lambda>s img. Inl ''Invalid input name'') white_canvas loaded_model
     = Terminated (OrtException ''Invalid input name'')"
  using Run_exception_terminates_process
    [of white_canvas loaded_model "\<lambda>s img. Inl ''Invalid input name''" "''Invalid input name''" "\<lambda>x. x" exp]
  by (simp add: white_canvas_def loaded_model_def width_def height_def MNIST_WIDTH_def MNIST_HEIGHT_def)

subsection \<open>C7\<close>

text \<open>
  Claim C7, as amended. When the engine cannot create a session from the model path, the
  exception is caught in \<^verbatim>\<open>main\<close>, the diagnostic \<^verbatim>\<open>ONNX Runtime error: ...\<close> is written
  and \<^verbatim>\<open>main\<close> returns -1. When the engine creates a session, loading succeeds with the
  object's own fixed shapes, whatever shapes the model declares.
\<close>

theorem main_load_outcomes:
  "(create_session ''mnist.onnx'' = Inl msg \<longrightarrow>
      main_load create_session = Returned (- 1) (''ONNX Runtime error: '' @ msg)) \<and>
   (create_session ''mnist.onnx'' = Inr s \<longrightarrow>
      (\<exists>m. main_load create_session = Loaded m \<and> session m = s \<and>
           input_shape m = [1, 1, 28, 28] \<and> output_shape m = [1, 10] \<and>
           length (input_image m) = 784 \<and> length (results m) = 10))"
  by (simp add: main_load_def MNISTModel_ctor_def MNIST_WIDTH_def MNIST_HEIGHT_def)

theorem main_load_outcomes_witness:
  "main_load (\<lambda>path. Inl ''Load model from mnist.onnx failed'')
     = Returned (- 1) ''ONNX Runtime error: Load model from mnist.onnx failed''"
  using main_load_outcomes [of "\<lambda>path. Inl ''Load model from mnist.onnx failed''" "''Load model from mnist.onnx failed''"]
  by simp

text \<open>
  The part of the claim on shapes fails: a model that declares a 1 x 3 x 32 x 32 input and a
  1 x 1000 output is loaded without any error.
\<close>

theorem main_load_shape_counterexample:
  "declared_input_shape other_model \<noteq> [1, 1, 28, 28] \<and>
   declared_output_shape other_model \<noteq> [1, 10] \<and>
   main_load (\<lambda>path. Inr other_model) =
     Loaded \<lparr>session = other_model, input_image = replicate 784 0, results = replicate 10 0,
             input_shape = [1, 1, 28, 28], output_shape = [1, 10]\<rparr>"
  by (simp add: main_load_def MNISTModel_ctor_def MNIST_WIDTH_def MNIST_HEIGHT_def other_model_def)

subsection \<open>C8\<close>

text \<open>
  Claim C8, as amended. When every sum \<open>l\<^sub>i + C\<close> is exact in the machine's arithmetic,
  adding \<open>C\<close> to all logits leaves the result of \<open>softmax\<close> unchanged, whatever the
  rounding and the exponential are: the shifted maximum is subtracted from the shifted
  logits, so every difference is the same real number before it is rounded.
\<close>

theorem softmax_shift_invariant:
  assumes "\<forall>l \<in> set logits. fadd rnd l C = l + C"
  shows "softmax rnd fexp (map (\<lambda>l. fadd rnd l C) logits) = softmax rnd fexp logits"
proof -
  have eq: "map (\<lambda>l. fadd rnd l C) logits = map (\<lambda>l. l + C) logits"
    using assms by (intro map_cong) simp_all
  show ?thesis unfolding eq by (rule softmax_shift)
qed

theorem softmax_shift_invariant_witness:
  "map (\<lambda>l. fadd binary32 l 1) shift_logits = [1, 2, 1, 1, 1, 1, 1, 1, 1, 1] \<and>
   softmax binary32 expf (map (\<lambda>l. fadd binary32 l 1) shift_logits) = softmax binary32 expf shift_logits"
proof -
  have 2: "binary32 2 = 2" using binary32_of_int [of 2] by simp
  have exact: "\<forall>l \<in> set shift_logits. fadd binary32 l 1 = l + 1"
    by (simp add: set_shift_logits fadd_def binary32_1 2)
  have "map (\<lambda>l. fadd binary32 l 1) shift_logits = [1, 2, 1, 1, 1, 1, 1, 1, 1, 1]"
    by (simp add: shift_logits_def fadd_def binary32_1 2)
  then show ?thesis using softmax_shift_invariant [OF exact, of expf] by simp
qed

text \<open>
  Without the condition the claim fails in binary32: for the logits \<open>[0, 1, 0, \<dots>]\<close> and
  \<open>C = 2 ^ 25\<close> the sum \<open>1 + 2 ^ 25\<close> rounds to \<open>2 ^ 25\<close>, the shifted vector is constant and
  its ten probabilities are equal, while the second probability of the original vector
  is strictly greater than the first.
\<close>

theorem softmax_shift_invariant_counterexample:
  "map (\<lambda>l. fadd binary32 l 33554432) shift_logits = replicate 10 33554432 \<and>
   softmax binary32 expf (map (\<lambda>l. fadd binary32 l 33554432) shift_logits)
     \<noteq> softmax binary32 expf shift_logits"
proof -
  have ne: "shift_logits \<noteq> []" "replicate 10 (33554432::real) \<noteq> []"
    by (simp_all add: shift_logits_def)
  have "softmax_formula binary32 expf (replicate 10 33554432)
      \<noteq> softmax_formula binary32 expf shift_logits"
  proof
    assume eq: "softmax_formula binary32 expf (replicate 10 33554432)
      = softmax_formula binary32 expf shift_logits"
    have "softmax_formula binary32 expf (replicate 10 33554432) ! 0
        = softmax_formula binary32 expf (replicate 10 33554432) ! 1"
      by (rule softmax_formula_constant_input) simp_all
    then show False using shift_logits_softmax_strict by (simp add: eq)
  qed
  then show ?thesis
    by (simp add: shifted_by_2_25 softmax_eq_formula [OF ne(1)] softmax_eq_formula [OF ne(2)])
qed

subsection \<open>C9\<close>

text \<open>
  Claim C9, as amended. Under the precondition \<open>W \<ge> 1\<close>, \<open>H \<ge> 1\<close>, buffer length
  \<open>W * H * 4\<close>, and when the index arithmetic stays within the 32-bit \<^verbatim>\<open>int\<close>, every cell
  \<open>(r, c)\<close> has \<open>0 \<le> srcY < H\<close> and \<open>0 \<le> srcX < W\<close>, the byte index is computed without
  overflow, and the three channel reads at \<open>idx + 0\<close>, \<open>idx + 1\<close>, \<open>idx + 2\<close> are inside
  the buffer.
\<close>

theorem source_access_in_bounds:
  assumes "1 \<le> W" and "1 \<le> H" and "length px = nat (W * H * 4)" and "index_fits W H"
    and "0 \<le> r" and "r < 28" and "0 \<le> c" and "c < 28"
  shows "0 \<le> r * H div 28 \<and> r * H div 28 < H \<and> 0 \<le> c * W div 28 \<and> c * W div 28 < W \<and>
         source_index W H r c = Inr (source_offset W H r c) \<and>
         0 \<le> source_offset W H r c \<and> source_offset W H r c + 2 < int (length px) \<and>
         at_index px (source_offset W H r c + 0) = Inr (px ! nat (source_offset W H r c)) \<and>
         at_index px (source_offset W H r c + 1) = Inr (px ! nat (source_offset W H r c + 1)) \<and>
         at_index px (source_offset W H r c + 2) = Inr (px ! nat (source_offset W H r c + 2))"
proof -
  have r: "r \<le> 27" and c: "c \<le> 27" using assms by simp_all
  note y = src_coord_bounds [OF assms(5) r assms(2)]
  note x = src_coord_bounds [OF assms(7) c assms(1)]
  note si = source_index_ok [OF assms(1,2,4,5) r assms(7) c, folded source_offset_def]
  have WH: "0 \<le> W * H * 4" using assms(1,2) by simp
  have len: "source_offset W H r c + 2 < int (length px)" using si(4) assms(3) WH by simp
  show ?thesis using y(1,3) x(1,3) si(1,2) len by (simp add: at_index_def)
qed

theorem source_access_in_bounds_witness:
  "source_index 2 2 27 27 = Inr 12 \<and> 12 + 2 < int (length four_pixels) \<and>
   at_index four_pixels (12 + 2) = Inr 30"
  using source_access_in_bounds [of 2 2 four_pixels 27 27]
  by (simp add: index_fits_def INT_MAX_def four_pixels_def source_offset_def)

text \<open>
  Without the bound the claim fails: for a capture of width 1 and height 79536432 the
  product \<^verbatim>\<open>row * bigHeight\<close> of row 27 is 2147483664 and overflows. Where the overflow
  wraps around, \<^verbatim>\<open>srcY\<close> is negative and the read is outside the buffer.
\<close>

theorem source_access_in_bounds_counterexample:
  "1 \<le> (1::int) \<and> 1 \<le> (79536432::int) \<and>
   length (replicate 318145728 (0::8 word)) = nat (1 * 79536432 * 4) \<and>
   imul 27 79536432 = Inl SignedOverflow \<and>
   source_index 1 79536432 27 0 = Inl SignedOverflow \<and>
   at_index (replicate 318145728 (0::8 word))
     ((sint (27 * 79536432 :: 32 word) sdiv 28 * 1 + 0) * 4) = Inl OutOfBounds"
  by (simp add: source_index_def imul_def idiv_def in_int_def INT_MAX_def INT_MIN_def
      MNIST_HEIGHT_def MNIST_WIDTH_def at_index_def signed_divide_int_def)

subsection \<open>C10\<close>

text \<open>
  Claim C10, as amended. For a monotone rounding that is exact on small integers and a
  monotone, non-negative exponential, the class \<open>k\<close> returned by \<open>Run\<close> is never later than
  the left-to-right argmax \<open>j\<close> of the raw logits and has the same probability; \<open>k = j\<close>
  whenever every logit strictly below the greatest gets a strictly smaller probability.
  In exact real arithmetic \<open>k = j\<close> always.
\<close>

theorem Run_class_and_logit_argmax:
  assumes "session_Run (session m) (input_image m) = Inr logits" and "length logits = 10"
    and "monotone_rounding rnd" and "exact_on_integers rnd" and "plausible_exp fexp"
  shows "(\<exists>k ps. Run rnd fexp session_Run m = Inr (int k, m\<lparr>results := ps\<rparr>) \<and>
            k \<le> max_element logits \<and> ps ! k = ps ! max_element logits \<and>
            ((\<forall>i<10. logits ! i < logits ! max_element logits \<longrightarrow> ps ! i < ps ! max_element logits)
               \<longrightarrow> k = max_element logits)) \<and>
         (\<exists>ps. Run (\<lambda>x. x) exp session_Run m = Inr (int (max_element logits), m\<lparr>results := ps\<rparr>))"
proof -
  have ne: "logits \<noteq> []" using assms(2) by auto
  define ps where "ps = softmax_formula rnd fexp logits"
  have len: "length ps = length logits" by (simp add: ps_def)
  have mono: "ps ! i \<le> ps ! j" if "i < length logits" "j < length logits" "logits ! i \<le> logits ! j" for i j
    unfolding ps_def by (rule softmax_formula_mono [OF assms(3,4,5) that])
  note a = argmax_after_monotone_map [OF len ne mono]
  have r: "Run rnd fexp session_Run m = Inr (int (max_element ps), m\<lparr>results := ps\<rparr>)"
    unfolding ps_def by (rule Run_ok [where session_Run = session_Run and m = m, OF assms(1) ne])
  have "(\<forall>i<10. logits ! i < logits ! max_element logits \<longrightarrow> ps ! i < ps ! max_element logits)
      \<longrightarrow> max_element ps = max_element logits"
    using a(3) assms(2) by simp
  then have "\<exists>k ps. Run rnd fexp session_Run m = Inr (int k, m\<lparr>results := ps\<rparr>) \<and>
            k \<le> max_element logits \<and> ps ! k = ps ! max_element logits \<and>
            ((\<forall>i<10. logits ! i < logits ! max_element logits \<longrightarrow> ps ! i < ps ! max_element logits)
               \<longrightarrow> k = max_element logits)"
    using r a(1,2) by blast
  moreover have "\<exists>ps. Run (\<lambda>x. x) exp session_Run m = Inr (int (max_element logits), m\<lparr>results := ps\<rparr>)"
    using Run_exact_argmax [where session_Run = session_Run and m = m, OF assms(1) ne] by blast
  ultimately show ?thesis by blast
qed

theorem Run_class_and_logit_argmax_witness:
  "(\<exists>k ps. Run binary32 expf (\<lambda>s img. Inr tiny_logits) loaded_model
        = Inr (int k, loaded_model\<lparr>results := ps\<rparr>) \<and> k \<le> 1 \<and> ps ! k = ps ! 1) \<and>
   map_sum (\<lambda>e. e) fst (Run (\<lambda>x. x) exp (\<lambda>s img. Inr tiny_logits) loaded_model) = Inr 1"
proof -
  have len: "length tiny_logits = 10" by (simp add: tiny_logits_def)
  note t = Run_class_and_logit_argmax [where session_Run = "\<lambda>s img. Inr tiny_logits" and m = loaded_model
      and rnd = binary32 and fexp = expf, OF tiny_run len binary32_arithmetic(1,2,4),
      unfolded max_element_tiny_logits]
  from t obtain k ps where "Run binary32 expf (\<lambda>s img. Inr tiny_logits) loaded_model
        = Inr (int k, loaded_model\<lparr>results := ps\<rparr>)" "k \<le> 1" "ps ! k = ps ! 1"
    by blast
  then have 1: "\<exists>k ps. Run binary32 expf (\<lambda>s img. Inr tiny_logits) loaded_model
        = Inr (int k, loaded_model\<lparr>results := ps\<rparr>) \<and> k \<le> 1 \<and> ps ! k = ps ! 1"
    by blast
  from t obtain ps' where "Run (\<lambda>x. x) exp (\<lambda>s img. Inr tiny_logits) loaded_model
      = Inr (int 1, loaded_model\<lparr>results := ps'\<rparr>)"
    by blast
  then have "map_sum (\<lambda>e. e) fst (Run (\<lambda>x. x) exp (\<lambda>s img. Inr tiny_logits) loaded_model) = Inr 1"
    by simp
  then show ?thesis using 1 by blast
qed

text \<open>
  In binary32 the claim fails as stated: for the logits \<open>[0, 2 ^ -30, 0, \<dots>]\<close> the argmax of
  the raw logits is 1, but \<open>exp (- 2 ^ -30)\<close> rounds to 1, the ten probabilities are equal
  and \<open>Run\<close> returns 0.
\<close>

theorem Run_class_and_logit_argmax_counterexample:
  "map_sum (\<lambda>e. e) fst (Run binary32 expf (\<lambda>s img. Inr tiny_logits) loaded_model) = Inr 0 \<and>
   int (max_element tiny_logits) = 1"
proof -
  have ne: "tiny_logits \<noteq> []" by (simp add: tiny_logits_def)
  have mx: "Max (set tiny_logits) = tiny" using tiny_pos by (simp add: set_tiny_logits max_def)
  have g: "expf (fsub binary32 l tiny) = 1" if "l \<in> set tiny_logits" for l
  proof -
    from that have "l = 0 \<or> l = tiny" by (simp add: set_tiny_logits)
    then show ?thesis
    proof
      assume "l = 0"
      then show ?thesis by (simp add: fsub_def binary32_neg_tiny expf_neg_tiny)
    next
      assume "l = tiny"
      then show ?thesis by (simp add: fsub_def binary32_def expf_0)
    qed
  qed
  define s where "s = float_sum binary32 (map (\<lambda>l. expf (fsub binary32 l tiny)) tiny_logits)"
  have "softmax_formula binary32 expf tiny_logits ! i = fdiv binary32 1 s"
    if "i < length (softmax_formula binary32 expf tiny_logits)" for i
    using that by (simp add: softmax_formula_nth mx s_def g)
  then have "max_element (softmax_formula binary32 expf tiny_logits) = 0"
    by (rule max_element_all_equal)
  then show ?thesis
    using Run_ok [where session_Run = "\<lambda>s img. Inr tiny_logits" and m = loaded_model
        and rnd = binary32 and fexp = expf, OF tiny_run ne]
    by (simp add: max_element_tiny_logits)
qed

end
